theory Spec2Isabelle
  imports Main "HOL-Library.Word" "HOL-Library.Sublist" "HOL-Library.Multiset"
begin

text \<open>
  A model of \<open>external/check_l10n/check_l10n.mjs\<close>, the script that checks that every
  message identifier declared in \<open>l10n/en-US/viewer.ftl\<close> is referenced in the sources
  under \<open>web/\<close> and \<open>src/\<close>: the catalog parser, the static and the dynamic matcher, the
  loading of the inputs and the report, followed by the properties the specification
  states about them.
\<close>

section \<open>JavaScript strings and the string operations the checker uses\<close>

text \<open>
  A JavaScript string is a sequence of 16-bit code units; \<open>length\<close>, \<open>split\<close>,
  \<open>includes\<close>, \<open>indexOf\<close>, \<open>slice\<close> and a regular expression without the \<open>u\<close> flag all
  work on code units. \<open>js\<close> writes an ASCII literal of the source as such a sequence.
\<close>

type_synonym jschar = "16 word"
type_synonym jsstring = "jschar list"

definition js :: "string \<Rightarrow> jsstring" where
  "js s = map (\<lambda>c. of_nat (of_char c)) s"

definition DASH :: jschar where "DASH = 0x2D"
definition NEWLINE :: jschar where "NEWLINE = 0x0A"
definition EQUALS :: jschar where "EQUALS = 0x3D"
definition DQUOTE :: jschar where "DQUOTE = 0x22"
definition SQUOTE :: jschar where "SQUOTE = 0x27"
definition BACKTICK :: jschar where "BACKTICK = 0x60"
definition DOLLAR :: jschar where "DOLLAR = 0x24"
definition LBRACE :: jschar where "LBRACE = 0x7B"

text \<open>
  \<open>s.split(sep)\<close> for a one-unit separator: a separator opens a new part, any other unit
  joins the part it stands in. The result is never empty (\<open>"".split("-")\<close> is \<open>[""]\<close>), so
  the \<open>[]\<close> branch below is never taken.
\<close>

fun jsSplit :: "'a \<Rightarrow> 'a list \<Rightarrow> 'a list list" where
  "jsSplit sep [] = [[]]"
| "jsSplit sep (c # cs) =
     (if c = sep then [] # jsSplit sep cs
      else (case jsSplit sep cs of
              p # ps \<Rightarrow> (c # p) # ps
            | [] \<Rightarrow> [[c]]))"

text \<open>\<open>parts.join(sep)\<close> for a one-unit separator; the empty array gives \<open>""\<close>.\<close>

fun jsJoin :: "'a \<Rightarrow> 'a list list \<Rightarrow> 'a list" where
  "jsJoin sep [] = []"
| "jsJoin sep [p] = p"
| "jsJoin sep (p # q # ps) = p @ sep # jsJoin sep (q # ps)"

text \<open>\<open>content.includes(s)\<close>: some position of \<open>content\<close> starts with \<open>s\<close>.\<close>

fun jsIncludes :: "'a list \<Rightarrow> 'a list \<Rightarrow> bool" where
  "jsIncludes [] s = (s = [])"
| "jsIncludes (c # cs) s = (prefix s (c # cs) \<or> jsIncludes cs s)"

text \<open>
  \<open>content.indexOf(s)\<close>: the search runs over the positions \<open>k = 0, 1, ...\<close> and returns
  the first one at which \<open>s\<close> starts, \<open>-1\<close> when there is none.
\<close>

fun indexOfFrom :: "'a list \<Rightarrow> 'a list \<Rightarrow> nat \<Rightarrow> int" where
  "indexOfFrom [] s k = (if s = [] then int k else - 1)"
| "indexOfFrom (c # cs) s k =
     (if prefix s (c # cs) then int k else indexOfFrom cs s (k + 1))"

definition jsIndexOf :: "'a list \<Rightarrow> 'a list \<Rightarrow> int" where
  "jsIndexOf cont s = indexOfFrom cont s 0"

text \<open>
  \<open>xs.slice(start, end)\<close> on a string or an array: a negative index counts from the end,
  and both indices are clamped to the length.
\<close>

definition jsClamp :: "nat \<Rightarrow> int \<Rightarrow> nat" where
  "jsClamp len k = (if k < 0 then nat (max (int len + k) 0) else min (nat k) len)"

definition jsSlice :: "'a list \<Rightarrow> int \<Rightarrow> int \<Rightarrow> 'a list" where
  "jsSlice xs start stop =
     (let from = jsClamp (length xs) start; to = jsClamp (length xs) stop
      in take (to - from) (drop from xs))"

definition jsSliceFrom :: "'a list \<Rightarrow> int \<Rightarrow> 'a list" where
  "jsSliceFrom xs start = drop (jsClamp (length xs) start) xs"

text \<open>
  \<open>s.replace(pat, "")\<close> with a string pattern: only the first occurrence is removed.
\<close>

definition jsRemoveFirst :: "'a list \<Rightarrow> 'a list \<Rightarrow> 'a list" where
  "jsRemoveFirst s pat =
     (if jsIncludes s pat
      then take (nat (jsIndexOf s pat)) s @ drop (nat (jsIndexOf s pat) + length pat) s
      else s)"

section \<open>The catalog parser (\<open>extractFtlIds\<close>)\<close>

text \<open>
  The character classes of \<open>/^([a-zA-Z][a-zA-Z0-9-]*)\s*=/\<close>. \<open>\s\<close> is ECMAScript's
  WhiteSpace and LineTerminator: TAB, LF, VT, FF, CR, SP, NBSP, U+1680, U+2000..U+200A,
  U+2028, U+2029, U+202F, U+205F, U+3000 and U+FEFF.
\<close>

definition isLetter :: "jschar \<Rightarrow> bool" where
  "isLetter c = ((0x41 \<le> c \<and> c \<le> 0x5A) \<or> (0x61 \<le> c \<and> c \<le> 0x7A))"

definition isIdChar :: "jschar \<Rightarrow> bool" where
  "isIdChar c = (isLetter c \<or> (0x30 \<le> c \<and> c \<le> 0x39) \<or> c = 0x2D)"

definition isSpace :: "jschar \<Rightarrow> bool" where
  "isSpace c =
     ((0x09 \<le> c \<and> c \<le> 0x0D) \<or> c = 0x20 \<or> c = 0xA0 \<or> c = 0x1680 \<or>
      (0x2000 \<le> c \<and> c \<le> 0x200A) \<or> c = 0x2028 \<or> c = 0x2029 \<or> c = 0x202F \<or>
      c = 0x205F \<or> c = 0x3000 \<or> c = 0xFEFF)"

text \<open>
  \<open>line.match(/^([a-zA-Z][a-zA-Z0-9-]*)\s*=/)\<close>, returning capture group 1: the pattern
  is anchored at index 0, the two starred classes are greedy, and the three classes
  (identifier units, white space, \<open>=\<close>) are disjoint, so the matcher scans left to right.
\<close>

definition matchFtlLine :: "jsstring \<Rightarrow> jsstring option" where
  "matchFtlLine line =
     (case line of
        [] \<Rightarrow> None
      | c # cs \<Rightarrow>
          if isLetter c then
            (case dropWhile isSpace (dropWhile isIdChar cs) of
               [] \<Rightarrow> None
             | e # rest \<Rightarrow> if e = EQUALS then Some (c # takeWhile isIdChar cs) else None)
          else None)"

text \<open>The loop of \<open>extractFtlIds\<close> over the lines, pushing each captured identifier.\<close>

fun extractLoop :: "jsstring list \<Rightarrow> jsstring list \<Rightarrow> jsstring list" where
  "extractLoop [] ids = ids"
| "extractLoop (line # lines) ids =
     (case matchFtlLine line of
        Some m \<Rightarrow> extractLoop lines (ids @ [m])
      | None \<Rightarrow> extractLoop lines ids)"

text \<open>The parser on the catalog text, once \<open>readFileSync\<close> has returned it.\<close>

definition parseFtlIds :: "jsstring \<Rightarrow> jsstring list" where
  "parseFtlIds text = extractLoop (jsSplit NEWLINE text) []"

section \<open>The source corpus and the static matcher (\<open>isUsed\<close>)\<close>

record source_file =
  path :: jsstring
  content :: jsstring

definition isUsed :: "jsstring \<Rightarrow> source_file list \<Rightarrow> bool" where
  "isUsed ident sources =
     (let dq = DQUOTE # ident @ [DQUOTE];
          sq = SQUOTE # ident @ [SQUOTE];
          bt = BACKTICK # ident @ [BACKTICK]
      in list_ex (\<lambda>f. jsIncludes (content f) dq \<or> jsIncludes (content f) sq \<or>
                       jsIncludes (content f) bt) sources)"

section \<open>The dynamic matcher (\<open>findDynamicLocation\<close>)\<close>

definition MIN_FRAGMENT_LENGTH :: nat where
  "MIN_FRAGMENT_LENGTH = 6"

record match_location =
  loc_path :: jsstring
  loc_line :: nat

text \<open>The fragments of one candidate: \<open>parts.slice(0, i).join("-") + "-"\<close> and
  \<open>j < parts.length ? "-" + parts.slice(j).join("-") : ""\<close>.\<close>

definition prefixOf :: "jsstring list \<Rightarrow> nat \<Rightarrow> jsstring" where
  "prefixOf parts i = jsJoin DASH (jsSlice parts 0 (int i)) @ [DASH]"

definition suffixOf :: "jsstring list \<Rightarrow> nat \<Rightarrow> jsstring" where
  "suffixOf parts j =
     (if j < length parts then DASH # jsJoin DASH (jsSliceFrom parts (int j)) else [])"

text \<open>The test of the innermost \<open>if\<close> on one file.\<close>

definition fileMatches :: "jsstring \<Rightarrow> jsstring \<Rightarrow> jsstring \<Rightarrow> bool" where
  "fileMatches prefixWithVar suf cont =
     (jsIncludes cont prefixWithVar \<and> (suf = [] \<or> jsIncludes cont suf))"

text \<open>\<open>content.slice(0, idx).split("\n").length\<close> for \<open>idx = content.indexOf(prefixWithVar)\<close>.\<close>

definition lineOf :: "jsstring \<Rightarrow> jsstring \<Rightarrow> nat" where
  "lineOf cont prefixWithVar =
     (let idx = jsIndexOf cont prefixWithVar
      in length (jsSplit NEWLINE (jsSlice cont 0 idx)))"

text \<open>The \<open>for ... of sources\<close> loop: the first file that passes the test ends the search.\<close>

fun scanSources :: "jsstring \<Rightarrow> jsstring \<Rightarrow> source_file list \<Rightarrow> match_location option" where
  "scanSources prefixWithVar suf [] = None"
| "scanSources prefixWithVar suf (f # fs) =
     (if fileMatches prefixWithVar suf (content f)
      then Some \<lparr>loc_path = path f, loc_line = lineOf (content f) prefixWithVar\<rparr>
      else scanSources prefixWithVar suf fs)"

text \<open>The inner loop \<open>for (let j = i + 1; j <= parts.length; j++)\<close>, entered at \<open>j\<close>.\<close>

function loopJ :: "jsstring list \<Rightarrow> source_file list \<Rightarrow> nat \<Rightarrow> nat \<Rightarrow> match_location option" where
  "loopJ parts sources i j =
     (if j \<le> length parts then
        (let pre = prefixOf parts i; suf = suffixOf parts j in
         if length pre < MIN_FRAGMENT_LENGTH then loopJ parts sources i (j + 1)
         else if suf \<noteq> [] \<and> length suf < MIN_FRAGMENT_LENGTH
           then loopJ parts sources i (j + 1)
         else (case scanSources (pre @ [DOLLAR, LBRACE]) suf sources of
                 Some loc \<Rightarrow> Some loc
               | None \<Rightarrow> loopJ parts sources i (j + 1)))
      else None)"
  by pat_completeness auto
termination
  by (relation "measure (\<lambda>(parts, sources, i, j). Suc (length parts) - j)") auto

declare loopJ.simps [simp del]

text \<open>The outer loop \<open>for (let i = 1; i < parts.length; i++)\<close>, entered at \<open>i\<close>.\<close>

function loopI :: "jsstring list \<Rightarrow> source_file list \<Rightarrow> nat \<Rightarrow> match_location option" where
  "loopI parts sources i =
     (if i < length parts then
        (case loopJ parts sources i (i + 1) of
           Some loc \<Rightarrow> Some loc
         | None \<Rightarrow> loopI parts sources (i + 1))
      else None)"
  by pat_completeness auto
termination
  by (relation "measure (\<lambda>(parts, sources, i). length parts - i)") auto

declare loopI.simps [simp del]

definition findDynamicLocation :: "jsstring \<Rightarrow> source_file list \<Rightarrow> match_location option" where
  "findDynamicLocation ident sources = loopI (jsSplit DASH ident) sources 1"

subsection \<open>The same search, recording which candidate reaches the \<open>return\<close>\<close>

text \<open>
  \<open>findDynamicLocation\<close> returns only a path and a line. The functions below run the
  same three loops with the same tests and return, in place of the location, the split
  points \<open>i\<close>, \<open>j\<close> and the file at which the \<open>return\<close> statement is reached.
\<close>

fun scanSourcesAt :: "jsstring \<Rightarrow> jsstring \<Rightarrow> source_file list \<Rightarrow> source_file option" where
  "scanSourcesAt prefixWithVar suf [] = None"
| "scanSourcesAt prefixWithVar suf (f # fs) =
     (if fileMatches prefixWithVar suf (content f) then Some f
      else scanSourcesAt prefixWithVar suf fs)"

function loopJAt :: "jsstring list \<Rightarrow> source_file list \<Rightarrow> nat \<Rightarrow> nat
    \<Rightarrow> (nat \<times> nat \<times> source_file) option" where
  "loopJAt parts sources i j =
     (if j \<le> length parts then
        (let pre = prefixOf parts i; suf = suffixOf parts j in
         if length pre < MIN_FRAGMENT_LENGTH then loopJAt parts sources i (j + 1)
         else if suf \<noteq> [] \<and> length suf < MIN_FRAGMENT_LENGTH
           then loopJAt parts sources i (j + 1)
         else (case scanSourcesAt (pre @ [DOLLAR, LBRACE]) suf sources of
                 Some f \<Rightarrow> Some (i, j, f)
               | None \<Rightarrow> loopJAt parts sources i (j + 1)))
      else None)"
  by pat_completeness auto
termination
  by (relation "measure (\<lambda>(parts, sources, i, j). Suc (length parts) - j)") auto

declare loopJAt.simps [simp del]

function loopIAt :: "jsstring list \<Rightarrow> source_file list \<Rightarrow> nat
    \<Rightarrow> (nat \<times> nat \<times> source_file) option" where
  "loopIAt parts sources i =
     (if i < length parts then
        (case loopJAt parts sources i (i + 1) of
           Some c \<Rightarrow> Some c
         | None \<Rightarrow> loopIAt parts sources (i + 1))
      else None)"
  by pat_completeness auto
termination
  by (relation "measure (\<lambda>(parts, sources, i). length parts - i)") auto

declare loopIAt.simps [simp del]

definition acceptedCandidate :: "jsstring \<Rightarrow> source_file list
    \<Rightarrow> (nat \<times> nat \<times> source_file) option" where
  "acceptedCandidate ident sources = loopIAt (jsSplit DASH ident) sources 1"

section \<open>Loading the inputs (\<open>extractFtlIds\<close>, \<open>collectFiles\<close>, \<open>loadSources\<close>)\<close>

text \<open>
  The checker reads through Node's \<open>fs\<close> and \<open>path\<close> modules, which are not part of the
  repository. They are taken as a parameter: the project root, \<open>path.join\<close>,
  \<open>path.extname\<close>, what \<open>readFileSync\<close> returns or throws for a path, and the directory
  tree found at a path. In a tree, \<open>NoStat\<close> is an entry on which \<open>statSync\<close> throws and
  \<open>NoDir\<close> a directory on which \<open>readdirSync\<close> throws.
\<close>

datatype ioerr = ENOENT | EACCES | ENOTDIR | EISDIR

datatype fsnode =
    FileNode
  | DirNode "(jsstring \<times> fsnode) list"
  | NoDir ioerr
  | NoStat ioerr

record host =
  ROOT :: jsstring
  pathJoin :: "jsstring list \<Rightarrow> jsstring"
  extname :: "jsstring \<Rightarrow> jsstring"
  readFileSync :: "jsstring \<Rightarrow> ioerr + jsstring"
  nodeAt :: "jsstring \<Rightarrow> fsnode"

definition FTL_PATH :: "host \<Rightarrow> jsstring" where
  "FTL_PATH h = pathJoin h [ROOT h, js ''l10n'', js ''en-US'', js ''viewer.ftl'']"

definition SEARCH_DIRS :: "jsstring list" where
  "SEARCH_DIRS = [js ''web'', js ''src'']"

definition SEARCH_EXTENSIONS :: "jsstring set" where
  "SEARCH_EXTENSIONS = {js ''.html'', js ''.js'', js ''.mjs''}"

definition extractFtlIds :: "host \<Rightarrow> jsstring \<Rightarrow> ioerr + jsstring list" where
  "extractFtlIds h ftlPath =
     (case readFileSync h ftlPath of
        Inl e \<Rightarrow> Inl e
      | Inr text \<Rightarrow> Inr (parseFtlIds text))"

text \<open>
  \<open>collectFiles\<close> on the tree found at \<open>dir\<close>; \<open>collectEntries\<close> is its loop over the
  entries, with the \<open>results\<close> collected so far. Any throw ends the walk.
\<close>

fun collectFiles :: "host \<Rightarrow> jsstring \<Rightarrow> fsnode \<Rightarrow> jsstring set \<Rightarrow> ioerr + jsstring list"
  and collectEntries :: "host \<Rightarrow> jsstring \<Rightarrow> (jsstring \<times> fsnode) list \<Rightarrow> jsstring set
    \<Rightarrow> jsstring list \<Rightarrow> ioerr + jsstring list" where
  "collectFiles h dir (DirNode entries) extensions = collectEntries h dir entries extensions []"
| "collectFiles h dir (NoDir e) extensions = Inl e"
| "collectFiles h dir (NoStat e) extensions = Inl e"
| "collectFiles h dir FileNode extensions = Inl ENOTDIR"
| "collectEntries h dir [] extensions results = Inr results"
| "collectEntries h dir ((entry, NoStat e) # rest) extensions results = Inl e"
| "collectEntries h dir ((entry, FileNode) # rest) extensions results =
     (if extname h entry \<in> extensions
      then collectEntries h dir rest extensions (results @ [pathJoin h [dir, entry]])
      else collectEntries h dir rest extensions results)"
| "collectEntries h dir ((entry, node) # rest) extensions results =
     (case collectFiles h (pathJoin h [dir, entry]) node extensions of
        Inl e \<Rightarrow> Inl e
      | Inr sub \<Rightarrow> collectEntries h dir rest extensions (results @ sub))"

text \<open>\<open>dirs.flatMap(d => collectFiles(join(ROOT, d), extensions))\<close>.\<close>

fun collectDirs :: "host \<Rightarrow> jsstring list \<Rightarrow> jsstring set \<Rightarrow> ioerr + jsstring list" where
  "collectDirs h [] extensions = Inr []"
| "collectDirs h (d # ds) extensions =
     (case collectFiles h (pathJoin h [ROOT h, d]) (nodeAt h (pathJoin h [ROOT h, d])) extensions of
        Inl e \<Rightarrow> Inl e
      | Inr found \<Rightarrow>
          (case collectDirs h ds extensions of
             Inl e \<Rightarrow> Inl e
           | Inr others \<Rightarrow> Inr (found @ others)))"

text \<open>\<open>files.map(f => ({ path: f, content: readFileSync(f, "utf8") }))\<close>.\<close>

fun readFiles :: "host \<Rightarrow> jsstring list \<Rightarrow> ioerr + source_file list" where
  "readFiles h [] = Inr []"
| "readFiles h (f # fs) =
     (case readFileSync h f of
        Inl e \<Rightarrow> Inl e
      | Inr text \<Rightarrow>
          (case readFiles h fs of
             Inl e \<Rightarrow> Inl e
           | Inr others \<Rightarrow> Inr (\<lparr>path = f, content = text\<rparr> # others)))"

definition loadSources :: "host \<Rightarrow> jsstring list \<Rightarrow> jsstring set \<Rightarrow> ioerr + source_file list" where
  "loadSources h dirs extensions =
     (case collectDirs h dirs extensions of
        Inl e \<Rightarrow> Inl e
      | Inr files \<Rightarrow> readFiles h files)"

section \<open>The classification and the report (\<open>main\<close>)\<close>

text \<open>The four values \<open>main\<close> computes from \<open>ids\<close> and \<open>sources\<close>, under its own names.\<close>

definition notFound :: "jsstring list \<Rightarrow> source_file list \<Rightarrow> jsstring list" where
  "notFound ids sources = filter (\<lambda>ident. \<not> isUsed ident sources) ids"

definition dynamicEntries :: "jsstring list \<Rightarrow> source_file list
    \<Rightarrow> (jsstring \<times> match_location option) list" where
  "dynamicEntries ids sources =
     filter (\<lambda>(ident, loc). loc \<noteq> None)
       (map (\<lambda>ident. (ident, findDynamicLocation ident sources)) (notFound ids sources))"

definition dynamicIds :: "jsstring list \<Rightarrow> source_file list \<Rightarrow> jsstring set" where
  "dynamicIds ids sources = set (map fst (dynamicEntries ids sources))"

definition unused :: "jsstring list \<Rightarrow> source_file list \<Rightarrow> jsstring list" where
  "unused ids sources =
     filter (\<lambda>ident. ident \<notin> dynamicIds ids sources) (notFound ids sources)"

text \<open>
  \<open>main\<close> never builds the Used group: it is what the filter of \<open>notFound\<close> drops.
\<close>

definition usedGroup :: "jsstring list \<Rightarrow> source_file list \<Rightarrow> jsstring list" where
  "usedGroup ids sources = filter (\<lambda>ident. isUsed ident sources) ids"

text \<open>
  What \<open>console.log\<close> prints is kept as one entry per call, without the formatting:
  the counts and names that go into each line.
\<close>

datatype log_line =
    LogFound nat
  | LogSearching nat "jsstring list"
  | LogDynamicHeader nat
  | LogDynamicId jsstring
  | LogDynamicLoc jsstring nat
  | LogBlank
  | LogAllUsed
  | LogUnusedHeader nat
  | LogUnusedId jsstring

datatype outcome = Threw ioerr | ExitCode nat

record run =
  printed :: "log_line list"
  outcome :: outcome

text \<open>
  The two lines printed for one dynamic entry. The entries have passed the filter
  \<open>loc !== null\<close> (lemma \<open>dynamicEntries_loc\<close> below), so the second case is never taken.
\<close>

definition logEntry :: "host \<Rightarrow> jsstring \<times> match_location option \<Rightarrow> log_line list" where
  "logEntry h entry =
     (case entry of
        (ident, Some loc) \<Rightarrow>
          (let rel = jsRemoveFirst (jsRemoveFirst (loc_path loc) (ROOT h @ js ''/''))
                       (ROOT h @ [0x5C])
           in [LogDynamicId ident, LogDynamicLoc rel (loc_line loc)])
      | (ident, None) \<Rightarrow> [])"

text \<open>Lines 160 to 187: the report and the exit code for parsed \<open>ids\<close> and loaded \<open>sources\<close>.\<close>

definition report :: "host \<Rightarrow> jsstring list \<Rightarrow> source_file list \<Rightarrow> run" where
  "report h ids sources =
     (let entries = dynamicEntries ids sources;
          unusedIds = unused ids sources;
          out1 = (if length entries > 0
                  then LogDynamicHeader (length entries) # concat (map (logEntry h) entries)
                       @ [LogBlank]
                  else [])
      in if length unusedIds = 0
         then \<lparr>printed = out1 @ [LogAllUsed], outcome = ExitCode 0\<rparr>
         else \<lparr>printed = out1 @ LogUnusedHeader (length unusedIds) # map LogUnusedId unusedIds,
               outcome = ExitCode 1\<rparr>)"

definition main :: "host \<Rightarrow> run" where
  "main h =
     (case extractFtlIds h (FTL_PATH h) of
        Inl e \<Rightarrow> \<lparr>printed = [], outcome = Threw e\<rparr>
      | Inr ids \<Rightarrow>
          (let out0 = [LogFound (length ids)] in
           case loadSources h SEARCH_DIRS SEARCH_EXTENSIONS of
             Inl e \<Rightarrow> \<lparr>printed = out0, outcome = Threw e\<rparr>
           | Inr sources \<Rightarrow>
               (let out1 = out0 @ [LogSearching (length sources) SEARCH_DIRS];
                    r = report h ids sources
                in r\<lparr>printed := out1 @ printed r\<rparr>)))"

section \<open>The specification's wording, for comparison with the code\<close>

subsection \<open>Catalog lines\<close>

text \<open>
  An identifier matches \<open>[A-Za-z][A-Za-z0-9-]*\<close>. A line declares \<open>ident\<close> when it starts
  with \<open>ident\<close>, followed by any white space and an equals sign; what follows is free.
\<close>

definition isIdentifier :: "jsstring \<Rightarrow> bool" where
  "isIdentifier s = (case s of [] \<Rightarrow> False | c # cs \<Rightarrow> isLetter c \<and> list_all isIdChar cs)"

definition declaresId :: "jsstring \<Rightarrow> jsstring \<Rightarrow> bool" where
  "declaresId line ident =
     (isIdentifier ident \<and>
      (\<exists>ws rest. list_all isSpace ws \<and> line = ident @ ws @ EQUALS # rest))"

text \<open>
  The identifiers captured from a sequence of lines: one per declaring line, in the order
  of the lines, and nothing for a line that declares no identifier.
\<close>

inductive capturedFrom :: "jsstring list \<Rightarrow> jsstring list \<Rightarrow> bool" where
  none: "capturedFrom [] []"
| declared: "declaresId line ident \<Longrightarrow> capturedFrom lines ids \<Longrightarrow>
     capturedFrom (line # lines) (ident # ids)"
| skipped: "\<not> (\<exists>ident. declaresId line ident) \<Longrightarrow> capturedFrom lines ids \<Longrightarrow>
     capturedFrom (line # lines) ids"

subsection \<open>Candidates of the dynamic search\<close>

text \<open>
  For parts \<open>parts[0..N)\<close> and split points \<open>1 \<le> i < j \<le> N\<close>: the prefix is \<open>parts[0..i)\<close>
  joined by dashes with a trailing dash, the suffix is \<open>parts[j..N)\<close> joined by dashes with
  a leading dash, or empty when \<open>j = N\<close>.
\<close>

definition specPrefix :: "jsstring list \<Rightarrow> nat \<Rightarrow> jsstring" where
  "specPrefix parts i = jsJoin DASH (take i parts) @ [DASH]"

definition specSuffix :: "jsstring list \<Rightarrow> nat \<Rightarrow> jsstring" where
  "specSuffix parts j = (if j = length parts then [] else DASH # jsJoin DASH (drop j parts))"

definition validSplit :: "nat \<Rightarrow> nat \<Rightarrow> nat \<Rightarrow> bool" where
  "validSplit n i j = (1 \<le> i \<and> i < j \<and> j \<le> n)"

text \<open>\<open>s\<close> occurs in \<open>cont\<close> as a contiguous substring.\<close>

definition containsStr :: "jsstring \<Rightarrow> jsstring \<Rightarrow> bool" where
  "containsStr cont s = (\<exists>a b. cont = a @ s @ b)"

text \<open>
  A candidate is accepted for a file when both fragments are long enough (an empty suffix
  is exempt) and the file contains the prefix followed by \<open>${\<close> and, if the suffix is not
  empty, the suffix.
\<close>

definition specAccepted :: "jsstring list \<Rightarrow> nat \<Rightarrow> nat \<Rightarrow> source_file \<Rightarrow> bool" where
  "specAccepted parts i j f =
     (6 \<le> length (specPrefix parts i) \<and>
      (specSuffix parts j = [] \<or> 6 \<le> length (specSuffix parts j)) \<and>
      containsStr (content f) (specPrefix parts i @ js ''${'') \<and>
      (specSuffix parts j = [] \<or> containsStr (content f) (specSuffix parts j)))"

text \<open>
  The tie-break order on triples \<open>(i, j, k)\<close>, \<open>k\<close> the position of the file in the corpus:
  smallest \<open>i\<close>, then smallest \<open>j\<close>, then first file.
\<close>

definition earlier :: "nat \<times> nat \<times> nat \<Rightarrow> nat \<times> nat \<times> nat \<Rightarrow> bool" where
  "earlier t u =
     (case (t, u) of ((i', j', k'), (i, j, k)) \<Rightarrow>
        i' < i \<or> (i' = i \<and> (j' < j \<or> (j' = j \<and> k' < k))))"

definition firstAccepted :: "jsstring list \<Rightarrow> source_file list \<Rightarrow> nat \<Rightarrow> nat \<Rightarrow> nat \<Rightarrow> bool" where
  "firstAccepted parts sources i j k =
     (validSplit (length parts) i j \<and> k < length sources \<and>
      specAccepted parts i j (sources ! k) \<and>
      (\<forall>i' j' k'. validSplit (length parts) i' j' \<and> k' < length sources \<and>
          earlier (i', j', k') (i, j, k) \<longrightarrow> \<not> specAccepted parts i' j' (sources ! k')))"

text \<open>
  The location of a match: the file's path, and one more than the number of newlines
  before the first position at which \<open>s\<close> starts in the content.
\<close>

definition firstOccurrence :: "jsstring \<Rightarrow> jsstring \<Rightarrow> nat" where
  "firstOccurrence cont s = (LEAST k. prefix s (drop k cont))"

definition specLocation :: "source_file \<Rightarrow> jsstring \<Rightarrow> match_location" where
  "specLocation f s =
     \<lparr>loc_path = path f,
      loc_line = 1 + count_list (take (firstOccurrence (content f) s) (content f)) NEWLINE\<rparr>"

subsection \<open>Abbreviations used in the proofs about the loops\<close>

text \<open>
  \<open>cand\<close> collects the tests one iteration \<open>(i, j)\<close> of the loops makes before it returns
  at the file in position \<open>k\<close>; \<open>locAt\<close> and \<open>locationOf\<close> are the object the \<open>return\<close>
  statement builds there.
\<close>

definition cand :: "jsstring list \<Rightarrow> source_file list \<Rightarrow> nat \<Rightarrow> nat \<Rightarrow> nat \<Rightarrow> bool" where
  "cand parts sources i j k =
     (\<not> length (prefixOf parts i) < MIN_FRAGMENT_LENGTH \<and>
      \<not> (suffixOf parts j \<noteq> [] \<and> length (suffixOf parts j) < MIN_FRAGMENT_LENGTH) \<and>
      fileMatches (prefixOf parts i @ [DOLLAR, LBRACE]) (suffixOf parts j) (content (sources ! k)))"

definition locAt :: "jsstring list \<Rightarrow> source_file list \<Rightarrow> nat \<Rightarrow> nat \<Rightarrow> match_location" where
  "locAt parts sources i k =
     \<lparr>loc_path = path (sources ! k),
      loc_line = lineOf (content (sources ! k)) (prefixOf parts i @ [DOLLAR, LBRACE])\<rparr>"

definition locationOf :: "jsstring list \<Rightarrow> nat \<times> nat \<times> source_file \<Rightarrow> match_location" where
  "locationOf parts c =
     (case c of (i, j, f) \<Rightarrow>
        \<lparr>loc_path = path f,
         loc_line = lineOf (content f) (prefixOf parts i @ [DOLLAR, LBRACE])\<rparr>)"

section \<open>Example inputs\<close>

text \<open>
  A catalog of five unindented lines and one indented line, one script file, and a host
  on which the catalog is \<open>/r/l10n/en-US/viewer.ftl\<close>, \<open>/r/web\<close> holds \<open>a.js\<close> and \<open>b.css\<close>,
  and \<open>/r/src\<close> is empty. On \<open>brokenHost\<close> no directory can be listed.
\<close>

definition SLASH :: jschar where "SLASH = 0x2F"

definition demoCatalog :: jsstring where
  "demoCatalog =
     js ''foo-bar = Foo'' @ [NEWLINE] @ js ''# note'' @ [NEWLINE] @
     js ''pdfjs-x-alert=A'' @ [NEWLINE] @ js '' cd = C'' @ [NEWLINE] @
     js ''ab = B'' @ [NEWLINE] @ js ''foo-bar = Twice''"

definition demoIds :: "jsstring list" where
  "demoIds = [js ''foo-bar'', js ''pdfjs-x-alert'', js ''ab'', js ''foo-bar'']"

definition demoFile :: source_file where
  "demoFile =
     \<lparr>path = js ''/r/web/a.js'',
      content = [DQUOTE] @ js ''foo-bar'' @ [DQUOTE] @ [NEWLINE] @ js ''`pdfjs-${t}-alert`''\<rparr>"

definition demoHost :: host where
  "demoHost =
     \<lparr>ROOT = js ''/r'',
      pathJoin = jsJoin SLASH,
      extname = (\<lambda>entry. if entry = js ''a.js'' then js ''.js'' else []),
      readFileSync = (\<lambda>p. if p = js ''/r/l10n/en-US/viewer.ftl'' then Inr demoCatalog
                          else if p = js ''/r/web/a.js'' then Inr (content demoFile)
                          else Inl ENOENT),
      nodeAt = (\<lambda>p. if p = js ''/r/web''
                      then DirNode [(js ''a.js'', FileNode), (js ''b.css'', FileNode)]
                    else if p = js ''/r/src'' then DirNode []
                    else NoDir ENOENT)\<rparr>"

definition brokenHost :: host where
  "brokenHost = demoHost\<lparr>nodeAt := (\<lambda>p. NoDir ENOENT)\<rparr>"

text \<open>A file in which the suffix \<open>-alert\<close> stands on the line before \<open>pdfjs-${\<close>.\<close>

definition swappedFile :: source_file where
  "swappedFile =
     \<lparr>path = js ''/r/web/s.js'',
      content = js ''-alert'' @ [NEWLINE] @ js ''pdfjs-${''\<rparr>"

text \<open>A file that holds \<open>pdfjs-${\<close> and no \<open>-alert\<close>.\<close>

definition tailFile :: source_file where
  "tailFile = \<lparr>path = js ''/r/web/n.js'', content = js ''`pdfjs-${t}`''\<rparr>"

text \<open>A file for the identifier \<open>pdfjs-x-y\<close>: it holds \<open>pdfjs-${\<close> and the short tail \<open>-y\<close>.\<close>

definition shortFile :: source_file where
  "shortFile = \<lparr>path = js ''/r/web/t.js'', content = js ''`pdfjs-${v}-y`''\<rparr>"

section \<open>Lemmas about the model\<close>

subsection \<open>String operations\<close>

lemma jsSplit_nonempty: "jsSplit sep s \<noteq> []"
  by (induction s) (auto split: list.splits)

lemma length_jsSplit: "length (jsSplit sep s) = Suc (count_list s sep)"
  by (induction s) (auto split: list.splits)

lemma jsSplit_no_sep: "sep \<notin> set s \<Longrightarrow> jsSplit sep s = [s]"
  by (induction s) auto

lemma jsIncludes_sublist: "jsIncludes c s = sublist s c"
  by (induction c) (auto simp: sublist_Cons_right)

lemma jsIncludes_iff: "jsIncludes c s \<longleftrightarrow> (\<exists>a b. c = a @ s @ b)"
  by (simp add: jsIncludes_sublist sublist_def)

lemma indexOfFrom_neg: "\<not> jsIncludes c s \<Longrightarrow> indexOfFrom c s k = - 1"
  by (induction c arbitrary: k) auto

lemma indexOfFrom_first:
  "jsIncludes c s \<Longrightarrow>
     \<exists>m. indexOfFrom c s k = int (k + m) \<and> prefix s (drop m c) \<and>
         (\<forall>m' < m. \<not> prefix s (drop m' c))"
proof (induction c arbitrary: k)
  case Nil
  then show ?case by simp
next
  case (Cons x xs)
  show ?case
  proof (cases "prefix s (x # xs)")
    case True
    then show ?thesis by (intro exI [of _ 0]) simp
  next
    case False
    with Cons.prems have "jsIncludes xs s" by simp
    from Cons.IH [OF this, of "k + 1"] obtain m where m:
      "indexOfFrom xs s (k + 1) = int (k + 1 + m)" "prefix s (drop m xs)"
      "\<forall>m' < m. \<not> prefix s (drop m' xs)"
      by blast
    show ?thesis
    proof (rule exI [of _ "Suc m"], intro conjI allI impI)
      show "indexOfFrom (x # xs) s k = int (k + Suc m)" using False m(1) by simp
      show "prefix s (drop (Suc m) (x # xs))" using m(2) by simp
      fix m' assume "m' < Suc m"
      then show "\<not> prefix s (drop m' (x # xs))"
        using False m(3) by (cases m') auto
    qed
  qed
qed

lemma jsIndexOf_neg: "\<not> jsIncludes c s \<Longrightarrow> jsIndexOf c s = - 1"
  by (simp add: jsIndexOf_def indexOfFrom_neg)

lemma jsIndexOf_first:
  assumes "jsIncludes c s"
  shows "0 \<le> jsIndexOf c s"
    and "prefix s (drop (nat (jsIndexOf c s)) c)"
    and "\<forall>k < nat (jsIndexOf c s). \<not> prefix s (drop k c)"
proof -
  from indexOfFrom_first [OF assms, of 0] obtain m where
    m: "jsIndexOf c s = int m" "prefix s (drop m c)" "\<forall>m' < m. \<not> prefix s (drop m' c)"
    unfolding jsIndexOf_def by auto
  show "0 \<le> jsIndexOf c s" using m(1) by simp
  show "prefix s (drop (nat (jsIndexOf c s)) c)" using m by simp
  show "\<forall>k < nat (jsIndexOf c s). \<not> prefix s (drop k c)" using m by simp
qed

lemma jsClamp_int [simp]: "jsClamp len (int k) = min k len"
  by (simp add: jsClamp_def)

lemma jsClamp_0 [simp]: "jsClamp len 0 = 0"
  by (simp add: jsClamp_def)

lemma jsSlice_take: "jsSlice xs 0 (int k) = take k xs"
  by (simp add: jsSlice_def min_def)

lemma jsSliceFrom_drop: "jsSliceFrom xs (int j) = drop j xs"
  by (simp add: jsSliceFrom_def min_def)

lemma js_dollar_brace: "js ''${'' = [DOLLAR, LBRACE]"
  by (simp add: js_def DOLLAR_def LBRACE_def)

subsection \<open>The three groups as filters of the identifier list\<close>

lemma notFound_set: "set (notFound ids sources) = {i \<in> set ids. \<not> isUsed i sources}"
  by (auto simp: notFound_def)

lemma dynamicEntries_eq:
  "dynamicEntries ids sources =
     map (\<lambda>i. (i, findDynamicLocation i sources))
       (filter (\<lambda>i. \<not> isUsed i sources \<and> findDynamicLocation i sources \<noteq> None) ids)"
  by (induction ids) (auto simp: dynamicEntries_def notFound_def)

lemma dynamicEntries_loc:
  "(ident, loc) \<in> set (dynamicEntries ids sources) \<Longrightarrow> loc \<noteq> None"
  by (auto simp: dynamicEntries_def)

lemma dynamicIds_eq:
  "dynamicIds ids sources =
     {i \<in> set ids. \<not> isUsed i sources \<and> findDynamicLocation i sources \<noteq> None}"
  by (auto simp: dynamicIds_def dynamicEntries_eq)

lemma dynamic_names_eq:
  "map fst (dynamicEntries ids sources) =
     filter (\<lambda>i. \<not> isUsed i sources \<and> findDynamicLocation i sources \<noteq> None) ids"
  by (simp add: dynamicEntries_eq comp_def)

lemma unused_eq:
  "unused ids sources =
     filter (\<lambda>i. \<not> isUsed i sources \<and> findDynamicLocation i sources = None) ids"
proof -
  have "filter (\<lambda>i. i \<notin> dynamicIds ids sources) (filter (\<lambda>i. \<not> isUsed i sources) ids)
      = filter (\<lambda>i. \<not> isUsed i sources \<and> findDynamicLocation i sources = None) ids"
    unfolding filter_filter
    by (rule filter_cong) (auto simp: dynamicIds_eq)
  then show ?thesis by (simp add: unused_def notFound_def)
qed

lemma count_list_filter: "count_list (filter P xs) x = (if P x then count_list xs x else 0)"
  by (induction xs) auto

subsection \<open>The line matcher and the pattern\<close>

lemma EQUALS_not_id: "\<not> isIdChar EQUALS"
  by (simp add: isIdChar_def isLetter_def EQUALS_def)

lemma EQUALS_not_space: "\<not> isSpace EQUALS"
  by (simp add: isSpace_def EQUALS_def)

lemma space_not_id: "isSpace c \<Longrightarrow> \<not> isIdChar c"
  unfolding isSpace_def isIdChar_def isLetter_def word_le_nat_alt
  by (elim disjE conjE) auto

lemma extractLoop_eq: "extractLoop lines acc = acc @ List.map_filter matchFtlLine lines"
  by (induction lines arbitrary: acc) (auto simp: List.map_filter_simps split: option.splits)

lemma parseFtlIds_eq: "parseFtlIds text = List.map_filter matchFtlLine (jsSplit NEWLINE text)"
  by (simp add: parseFtlIds_def extractLoop_eq)

lemma scan_ident:
  assumes "list_all isIdChar cs0" "list_all isSpace ws"
  shows "takeWhile isIdChar (cs0 @ ws @ EQUALS # rest) = cs0"
    and "dropWhile isSpace (dropWhile isIdChar (cs0 @ ws @ EQUALS # rest)) = EQUALS # rest"
proof -
  have stop: "takeWhile isIdChar (ws @ EQUALS # rest) = []"
    using assms(2) by (cases ws) (simp_all add: EQUALS_not_id space_not_id)
  have stop': "dropWhile isIdChar (ws @ EQUALS # rest) = ws @ EQUALS # rest"
    using assms(2) by (cases ws) (simp_all add: EQUALS_not_id space_not_id)
  have all: "\<forall>x \<in> set cs0. isIdChar x" using assms(1) by (simp add: list_all_iff)
  have allw: "\<forall>x \<in> set ws. isSpace x" using assms(2) by (simp add: list_all_iff)
  show "takeWhile isIdChar (cs0 @ ws @ EQUALS # rest) = cs0"
    using all stop by (simp add: takeWhile_append2)
  have "dropWhile isIdChar (cs0 @ ws @ EQUALS # rest) = ws @ EQUALS # rest"
    using all stop' by (simp add: dropWhile_append2)
  moreover have "dropWhile isSpace (ws @ EQUALS # rest) = EQUALS # rest"
    using allw by (simp add: dropWhile_append2 EQUALS_not_space)
  ultimately show "dropWhile isSpace (dropWhile isIdChar (cs0 @ ws @ EQUALS # rest)) = EQUALS # rest"
    by simp
qed

lemma matchFtlLine_iff: "matchFtlLine line = Some ident \<longleftrightarrow> declaresId line ident"
proof
  assume m: "matchFtlLine line = Some ident"
  then obtain c cs where line: "line = c # cs" and c: "isLetter c"
    by (auto simp: matchFtlLine_def split: list.splits if_splits)
  from m line c obtain rest where
    d: "dropWhile isSpace (dropWhile isIdChar cs) = EQUALS # rest"
    and i: "ident = c # takeWhile isIdChar cs"
    by (auto simp: matchFtlLine_def split: list.splits if_splits)
  let ?ws = "takeWhile isSpace (dropWhile isIdChar cs)"
  have "cs = takeWhile isIdChar cs @ ?ws @ dropWhile isSpace (dropWhile isIdChar cs)"
    by simp
  then have "line = ident @ ?ws @ EQUALS # rest"
    using line i d by simp
  moreover have "list_all isSpace ?ws"
    by (simp add: list_all_iff) (meson set_takeWhileD)
  moreover have "isIdentifier ident"
    using c i by (simp add: isIdentifier_def list_all_iff) (meson set_takeWhileD)
  ultimately show "declaresId line ident"
    unfolding declaresId_def by blast
next
  assume "declaresId line ident"
  then obtain ws rest where idn: "isIdentifier ident" and ws: "list_all isSpace ws"
    and line: "line = ident @ ws @ EQUALS # rest"
    unfolding declaresId_def by blast
  from idn obtain c cs0 where ident: "ident = c # cs0" and c: "isLetter c"
    and cs0: "list_all isIdChar cs0"
    by (auto simp: isIdentifier_def split: list.splits)
  have line': "line = c # (cs0 @ ws @ EQUALS # rest)" using line ident by simp
  show "matchFtlLine line = Some ident"
    unfolding line' matchFtlLine_def
    using c scan_ident [OF cs0 ws, of rest] ident by simp
qed

lemma capturedFrom_iff: "capturedFrom lines ids \<longleftrightarrow> ids = List.map_filter matchFtlLine lines"
proof
  assume "capturedFrom lines ids"
  then show "ids = List.map_filter matchFtlLine lines"
  proof (induction rule: capturedFrom.induct)
    case none
    show ?case by (simp add: List.map_filter_simps)
  next
    case (declared line ident lines ids)
    then show ?case by (simp add: List.map_filter_simps matchFtlLine_iff [symmetric])
  next
    case (skipped line lines ids)
    then have "matchFtlLine line = None"
      by (cases "matchFtlLine line") (auto simp: matchFtlLine_iff)
    with skipped show ?case by (simp add: List.map_filter_simps)
  qed
next
  assume "ids = List.map_filter matchFtlLine lines"
  then show "capturedFrom lines ids"
  proof (induction lines arbitrary: ids)
    case Nil
    then show ?case by (simp add: List.map_filter_simps capturedFrom.none)
  next
    case (Cons line lines)
    show ?case
    proof (cases "matchFtlLine line")
      case None
      then have "\<not> (\<exists>ident. declaresId line ident)" by (simp add: matchFtlLine_iff [symmetric])
      moreover have "capturedFrom lines ids" using Cons None by (simp add: List.map_filter_simps)
      ultimately show ?thesis by (rule capturedFrom.skipped)
    next
      case (Some ident)
      then have d: "declaresId line ident" by (simp add: matchFtlLine_iff)
      have ids: "ids = ident # List.map_filter matchFtlLine lines"
        using Cons.prems Some by (simp add: List.map_filter_simps)
      have "capturedFrom lines (List.map_filter matchFtlLine lines)" using Cons.IH by simp
      with d show ?thesis unfolding ids by (rule capturedFrom.declared)
    qed
  qed
qed

subsection \<open>Fragments, the file test and the line number\<close>

lemma prefixOf_spec: "prefixOf parts i = specPrefix parts i"
  by (simp add: prefixOf_def specPrefix_def jsSlice_take)

lemma suffixOf_spec: "j \<le> length parts \<Longrightarrow> suffixOf parts j = specSuffix parts j"
  by (simp add: suffixOf_def specSuffix_def jsSliceFrom_drop)

lemma fileMatches_iff:
  "fileMatches pv suf cont \<longleftrightarrow> containsStr cont pv \<and> (suf = [] \<or> containsStr cont suf)"
  by (simp add: fileMatches_def containsStr_def jsIncludes_iff)

lemma cand_spec:
  "j \<le> length parts \<Longrightarrow> cand parts sources i j k = specAccepted parts i j (sources ! k)"
  by (auto simp: cand_def specAccepted_def prefixOf_spec suffixOf_spec fileMatches_iff
      js_dollar_brace MIN_FRAGMENT_LENGTH_def)

lemma lineOf_spec:
  assumes "jsIncludes cont s"
  shows "lineOf cont s = 1 + count_list (take (firstOccurrence cont s) cont) NEWLINE"
proof -
  note idx = jsIndexOf_first [OF assms]
  have "(LEAST k. prefix s (drop k cont)) = nat (jsIndexOf cont s)"
  proof (rule Least_equality)
    show "prefix s (drop (nat (jsIndexOf cont s)) cont)" by (rule idx(2))
  next
    fix y assume "prefix s (drop y cont)"
    with idx(3) show "nat (jsIndexOf cont s) \<le> y" by (meson not_less)
  qed
  then have fo: "firstOccurrence cont s = nat (jsIndexOf cont s)"
    by (simp add: firstOccurrence_def)
  have "jsSlice cont 0 (jsIndexOf cont s) = take (nat (jsIndexOf cont s)) cont"
    using jsSlice_take [of cont "nat (jsIndexOf cont s)"] idx(1) by simp
  then show ?thesis
    by (simp add: lineOf_def fo length_jsSplit)
qed

lemma scanSources_None:
  "scanSources pv suf fs = None \<longleftrightarrow>
     (\<forall>k < length fs. \<not> fileMatches pv suf (content (fs ! k)))"
proof (induction fs)
  case Nil
  show ?case by simp
next
  case (Cons f fs)
  show ?case
    by (auto simp: Cons.IH less_Suc_eq_0_disj)
qed

lemma scanSources_Some:
  "scanSources pv suf fs = Some loc \<Longrightarrow>
     \<exists>k < length fs. fileMatches pv suf (content (fs ! k)) \<and>
        (\<forall>k' < k. \<not> fileMatches pv suf (content (fs ! k'))) \<and>
        loc = \<lparr>loc_path = path (fs ! k), loc_line = lineOf (content (fs ! k)) pv\<rparr>"
proof (induction fs)
  case Nil
  then show ?case by simp
next
  case (Cons f fs)
  show ?case
  proof (cases "fileMatches pv suf (content f)")
    case True
    with Cons.prems have "loc = \<lparr>loc_path = path f, loc_line = lineOf (content f) pv\<rparr>"
      by simp
    with True show ?thesis by (intro exI [of _ 0]) simp
  next
    case False
    with Cons.prems have "scanSources pv suf fs = Some loc" by simp
    from Cons.IH [OF this] obtain k where k: "k < length fs"
      "fileMatches pv suf (content (fs ! k))"
      "\<forall>k' < k. \<not> fileMatches pv suf (content (fs ! k'))"
      "loc = \<lparr>loc_path = path (fs ! k), loc_line = lineOf (content (fs ! k)) pv\<rparr>"
      by blast
    show ?thesis
    proof (intro exI [of _ "Suc k"] conjI allI impI)
      fix k' assume "k' < Suc k"
      then show "\<not> fileMatches pv suf (content ((f # fs) ! k'))"
        using False k(3) by (cases k') auto
    qed (use k in auto)
  qed
qed

subsection \<open>The loops over the split points\<close>

lemma loopJ_end: "\<not> j \<le> length parts \<Longrightarrow> loopJ parts sources i j = None"
  by (subst loopJ.simps) simp

lemma loopJ_step:
  "j \<le> length parts \<Longrightarrow>
   loopJ parts sources i j =
     (if length (prefixOf parts i) < MIN_FRAGMENT_LENGTH \<or>
         (suffixOf parts j \<noteq> [] \<and> length (suffixOf parts j) < MIN_FRAGMENT_LENGTH)
      then loopJ parts sources i (Suc j)
      else (case scanSources (prefixOf parts i @ [DOLLAR, LBRACE]) (suffixOf parts j) sources of
              Some loc \<Rightarrow> Some loc
            | None \<Rightarrow> loopJ parts sources i (Suc j)))"
  by (subst loopJ.simps) (auto simp: Let_def split: option.splits)

lemma cand_here:
  "(\<forall>k < length sources. \<not> cand parts sources i j k) \<longleftrightarrow>
     (length (prefixOf parts i) < MIN_FRAGMENT_LENGTH \<or>
      (suffixOf parts j \<noteq> [] \<and> length (suffixOf parts j) < MIN_FRAGMENT_LENGTH) \<or>
      scanSources (prefixOf parts i @ [DOLLAR, LBRACE]) (suffixOf parts j) sources = None)"
  by (auto simp: cand_def scanSources_None)

lemma from_split:
  fixes j :: nat
  shows "(\<forall>j'. j \<le> j' \<longrightarrow> P j') \<longleftrightarrow> P j \<and> (\<forall>j'. Suc j \<le> j' \<longrightarrow> P j')"
proof
  assume a: "\<forall>j'. j \<le> j' \<longrightarrow> P j'"
  show "P j \<and> (\<forall>j'. Suc j \<le> j' \<longrightarrow> P j')" using a by auto
next
  assume b: "P j \<and> (\<forall>j'. Suc j \<le> j' \<longrightarrow> P j')"
  show "\<forall>j'. j \<le> j' \<longrightarrow> P j'"
  proof (intro allI impI)
    fix j' assume "j \<le> j'"
    then have "j' = j \<or> Suc j \<le> j'" by auto
    with b show "P j'" by auto
  qed
qed

lemma loopJ_None:
  "loopJ parts sources i j = None \<longleftrightarrow>
     (\<forall>j'. j \<le> j' \<longrightarrow> j' \<le> length parts \<longrightarrow>
        (\<forall>k < length sources. \<not> cand parts sources i j' k))"
proof (induction "Suc (length parts) - j" arbitrary: j)
  case 0
  then have "\<not> j \<le> length parts" by simp
  then show ?case by (auto simp: loopJ_end)
next
  case (Suc n)
  then have j: "j \<le> length parts" and n: "n = Suc (length parts) - Suc j" by simp_all
  note IH = Suc.hyps(1) [OF n]
  have "loopJ parts sources i j = None \<longleftrightarrow>
      (\<forall>k < length sources. \<not> cand parts sources i j k) \<and> loopJ parts sources i (Suc j) = None"
    unfolding cand_here by (auto simp: loopJ_step [OF j] split: option.splits)
  also have "\<dots> \<longleftrightarrow> (\<forall>j'. j \<le> j' \<longrightarrow> j' \<le> length parts \<longrightarrow>
        (\<forall>k < length sources. \<not> cand parts sources i j' k))"
    unfolding IH by (subst (2) from_split) (use j in simp)
  finally show ?case .
qed

lemma loopJ_Some:
  "loopJ parts sources i j = Some loc \<Longrightarrow>
     \<exists>j' k. j \<le> j' \<and> j' \<le> length parts \<and> k < length sources \<and>
        cand parts sources i j' k \<and>
        (\<forall>j'' k'. j \<le> j'' \<and> k' < length sources \<and> (j'' < j' \<or> (j'' = j' \<and> k' < k))
            \<longrightarrow> \<not> cand parts sources i j'' k') \<and>
        loc = locAt parts sources i k"
proof (induction "Suc (length parts) - j" arbitrary: j)
  case 0
  then have "\<not> j \<le> length parts" by simp
  with 0 show ?case by (simp add: loopJ_end)
next
  case (Suc n)
  then have j: "j \<le> length parts" and n: "n = Suc (length parts) - Suc j" by simp_all
  note IH = Suc.hyps(1) [OF n]
  let ?guard = "length (prefixOf parts i) < MIN_FRAGMENT_LENGTH \<or>
         (suffixOf parts j \<noteq> [] \<and> length (suffixOf parts j) < MIN_FRAGMENT_LENGTH)"
  let ?scan = "scanSources (prefixOf parts i @ [DOLLAR, LBRACE]) (suffixOf parts j) sources"
  show ?case
  proof (cases "\<not> ?guard \<and> ?scan \<noteq> None")
    case True
    then obtain l where l: "?scan = Some l" by auto
    with True Suc.prems have "loc = l" by (auto simp: loopJ_step [OF j] split: if_splits)
    from scanSources_Some [OF l] obtain k where k: "k < length sources"
      "fileMatches (prefixOf parts i @ [DOLLAR, LBRACE]) (suffixOf parts j) (content (sources ! k))"
      "\<forall>k' < k. \<not> fileMatches (prefixOf parts i @ [DOLLAR, LBRACE]) (suffixOf parts j) (content (sources ! k'))"
      and l': "l = \<lparr>loc_path = path (sources ! k),
          loc_line = lineOf (content (sources ! k)) (prefixOf parts i @ [DOLLAR, LBRACE])\<rparr>"
      by blast
    have loc: "loc = locAt parts sources i k" using \<open>loc = l\<close> l' by (simp add: locAt_def)
    show ?thesis
    proof (rule exI [of _ j], rule exI [of _ k], intro conjI allI impI)
      show "cand parts sources i j k" using True k(2) by (simp add: cand_def)
    next
      fix j'' k'
      assume "j \<le> j'' \<and> k' < length sources \<and> (j'' < j \<or> j'' = j \<and> k' < k)"
      then have "j'' = j" "k' < k" by auto
      then show "\<not> cand parts sources i j'' k'" using k(3) by (simp add: cand_def)
    qed (use j k loc in auto)
  next
    case False
    then have none: "\<forall>k < length sources. \<not> cand parts sources i j k"
      unfolding cand_here by auto
    from False Suc.prems have "loopJ parts sources i (Suc j) = Some loc"
      by (auto simp: loopJ_step [OF j] split: option.splits if_splits)
    from IH [OF this] obtain j' k where jk: "Suc j \<le> j'" "j' \<le> length parts" "k < length sources"
      "cand parts sources i j' k"
      "\<forall>j'' k'. Suc j \<le> j'' \<and> k' < length sources \<and> (j'' < j' \<or> (j'' = j' \<and> k' < k))
            \<longrightarrow> \<not> cand parts sources i j'' k'"
      "loc = locAt parts sources i k"
      by blast
    show ?thesis
    proof (rule exI [of _ j'], rule exI [of _ k], intro conjI allI impI)
      fix j'' k'
      assume a: "j \<le> j'' \<and> k' < length sources \<and> (j'' < j' \<or> j'' = j' \<and> k' < k)"
      show "\<not> cand parts sources i j'' k'"
      proof (cases "j'' = j")
        case True
        then show ?thesis using none a by simp
      next
        case False
        with a have "Suc j \<le> j''" by simp
        with a jk(5) show ?thesis by blast
      qed
    qed (use jk in auto)
  qed
qed

lemma loopI_end: "\<not> i < length parts \<Longrightarrow> loopI parts sources i = None"
  by (subst loopI.simps) simp

lemma loopI_step:
  "i < length parts \<Longrightarrow>
   loopI parts sources i =
     (case loopJ parts sources i (Suc i) of
        Some loc \<Rightarrow> Some loc
      | None \<Rightarrow> loopI parts sources (Suc i))"
  by (subst loopI.simps) (auto split: option.splits)

lemma loopI_None:
  "loopI parts sources i = None \<longleftrightarrow>
     (\<forall>i'. i \<le> i' \<longrightarrow> (\<forall>j k. i' < j \<and> j \<le> length parts \<and> k < length sources
        \<longrightarrow> \<not> cand parts sources i' j k))"
proof (induction "length parts - i" arbitrary: i)
  case 0
  then have "\<not> i < length parts" by simp
  then show ?case by (auto simp: loopI_end)
next
  case (Suc n)
  then have i: "i < length parts" and n: "n = length parts - Suc i" by simp_all
  note IH = Suc.hyps(1) [OF n]
  have "loopI parts sources i = None \<longleftrightarrow>
      loopJ parts sources i (Suc i) = None \<and> loopI parts sources (Suc i) = None"
    by (auto simp: loopI_step [OF i] split: option.splits)
  also have "\<dots> \<longleftrightarrow> (\<forall>i'. i \<le> i' \<longrightarrow> (\<forall>j k. i' < j \<and> j \<le> length parts \<and> k < length sources
        \<longrightarrow> \<not> cand parts sources i' j k))"
    unfolding IH loopJ_None by (subst (2) from_split) (auto simp: Suc_le_eq)
  finally show ?case .
qed

lemma loopI_Some:
  "loopI parts sources i = Some loc \<Longrightarrow>
     \<exists>i' j k. i \<le> i' \<and> i' < j \<and> j \<le> length parts \<and> k < length sources \<and>
        cand parts sources i' j k \<and>
        (\<forall>a b c. i \<le> a \<and> a < b \<and> b \<le> length parts \<and> c < length sources \<and>
            earlier (a, b, c) (i', j, k) \<longrightarrow> \<not> cand parts sources a b c) \<and>
        loc = locAt parts sources i' k"
proof (induction "length parts - i" arbitrary: i)
  case 0
  then have "\<not> i < length parts" by simp
  with 0 show ?case by (simp add: loopI_end)
next
  case (Suc n)
  then have i: "i < length parts" and n: "n = length parts - Suc i" by simp_all
  note IH = Suc.hyps(1) [OF n]
  show ?case
  proof (cases "loopJ parts sources i (Suc i)")
    case (Some l)
    with Suc.prems have row: "loopJ parts sources i (Suc i) = Some loc"
      by (simp add: loopI_step [OF i])
    from loopJ_Some [OF row] obtain j k where jk: "Suc i \<le> j" "j \<le> length parts"
      "k < length sources" "cand parts sources i j k"
      and first: "\<forall>j'' k'. Suc i \<le> j'' \<and> k' < length sources \<and> (j'' < j \<or> (j'' = j \<and> k' < k))
            \<longrightarrow> \<not> cand parts sources i j'' k'"
      and loc: "loc = locAt parts sources i k"
      by blast
    show ?thesis
    proof (rule exI [of _ i], rule exI [of _ j], rule exI [of _ k], intro conjI allI impI)
      fix a b c
      assume h: "i \<le> a \<and> a < b \<and> b \<le> length parts \<and> c < length sources \<and>
            earlier (a, b, c) (i, j, k)"
      then have "a = i" "b < j \<or> (b = j \<and> c < k)" by (auto simp: earlier_def)
      with h first show "\<not> cand parts sources a b c" by auto
    qed (use jk loc in auto)
  next
    case None
    then have row: "\<forall>j k. i < j \<and> j \<le> length parts \<and> k < length sources
        \<longrightarrow> \<not> cand parts sources i j k"
      by (auto simp: loopJ_None Suc_le_eq)
    from None Suc.prems have "loopI parts sources (Suc i) = Some loc"
      by (simp add: loopI_step [OF i])
    from IH [OF this] obtain i' j k where ijk: "Suc i \<le> i'" "i' < j" "j \<le> length parts"
      "k < length sources" "cand parts sources i' j k"
      and first: "\<forall>a b c. Suc i \<le> a \<and> a < b \<and> b \<le> length parts \<and> c < length sources \<and>
            earlier (a, b, c) (i', j, k) \<longrightarrow> \<not> cand parts sources a b c"
      and loc: "loc = locAt parts sources i' k"
      by blast
    show ?thesis
    proof (rule exI [of _ i'], rule exI [of _ j], rule exI [of _ k], intro conjI allI impI)
      fix a b c
      assume h: "i \<le> a \<and> a < b \<and> b \<le> length parts \<and> c < length sources \<and>
            earlier (a, b, c) (i', j, k)"
      show "\<not> cand parts sources a b c"
      proof (cases "a = i")
        case True
        with h row show ?thesis by blast
      next
        case False
        with h have "Suc i \<le> a" by simp
        with h first show ?thesis by blast
      qed
    qed (use ijk loc in auto)
  qed
qed

lemma locAt_spec:
  assumes "cand parts sources i j k"
  shows "locAt parts sources i k = specLocation (sources ! k) (specPrefix parts i @ js ''${'')"
proof -
  from assms have "jsIncludes (content (sources ! k)) (prefixOf parts i @ [DOLLAR, LBRACE])"
    by (simp add: cand_def fileMatches_def)
  from lineOf_spec [OF this] show ?thesis
    by (simp add: locAt_def specLocation_def prefixOf_spec js_dollar_brace)
qed

subsection \<open>The search that records its candidate\<close>

lemma scanSources_At:
  "scanSources pv suf fs =
     map_option (\<lambda>f. \<lparr>loc_path = path f, loc_line = lineOf (content f) pv\<rparr>)
       (scanSourcesAt pv suf fs)"
  by (induction fs) auto

lemma scanSourcesAt_Some:
  "scanSourcesAt pv suf fs = Some f \<Longrightarrow> f \<in> set fs \<and> fileMatches pv suf (content f)"
  by (induction fs) (auto split: if_splits)

lemma scanSourcesAt_None:
  "scanSourcesAt pv suf fs = None \<longleftrightarrow> (\<forall>f \<in> set fs. \<not> fileMatches pv suf (content f))"
  by (induction fs) auto

lemma loopJ_At:
  "loopJ parts sources i j = map_option (locationOf parts) (loopJAt parts sources i j)"
proof (induction "Suc (length parts) - j" arbitrary: j)
  case 0
  then have "\<not> j \<le> length parts" by simp
  then show ?case by (subst loopJ.simps, subst loopJAt.simps) simp
next
  case (Suc n)
  then have j: "j \<le> length parts" and n: "n = Suc (length parts) - (Suc j)" by simp_all
  note IH = Suc.hyps(1) [OF n]
  show ?case
    by (subst loopJ.simps, subst loopJAt.simps)
      (auto simp: Let_def IH scanSources_At locationOf_def split: option.splits)
qed

lemma loopI_At:
  "loopI parts sources i = map_option (locationOf parts) (loopIAt parts sources i)"
proof (induction "length parts - i" arbitrary: i)
  case 0
  then have "\<not> i < length parts" by simp
  then show ?case by (subst loopI.simps, subst loopIAt.simps) simp
next
  case (Suc n)
  then have i: "i < length parts" and n: "n = length parts - (Suc i)" by simp_all
  note IH = Suc.hyps(1) [OF n]
  show ?case
    by (subst loopI.simps, subst loopIAt.simps)
      (auto simp: IH loopJ_At split: option.splits)
qed

lemma findDynamicLocation_At:
  "findDynamicLocation ident sources =
     map_option (locationOf (jsSplit DASH ident)) (acceptedCandidate ident sources)"
  by (simp add: findDynamicLocation_def acceptedCandidate_def loopI_At)

lemma loopJAt_Some:
  "loopJAt parts sources i j = Some (a, b, f) \<Longrightarrow>
     a = i \<and> j \<le> b \<and> b \<le> length parts \<and> f \<in> set sources \<and>
     \<not> length (prefixOf parts i) < MIN_FRAGMENT_LENGTH \<and>
     \<not> (suffixOf parts b \<noteq> [] \<and> length (suffixOf parts b) < MIN_FRAGMENT_LENGTH) \<and>
     fileMatches (prefixOf parts i @ [DOLLAR, LBRACE]) (suffixOf parts b) (content f)"
proof (induction "Suc (length parts) - j" arbitrary: j)
  case 0
  then have "\<not> j \<le> length parts" by simp
  with 0 show ?case by (subst (asm) loopJAt.simps) simp
next
  case (Suc n)
  then have j: "j \<le> length parts" and n: "n = Suc (length parts) - (Suc j)" by simp_all
  note IH = Suc.hyps(1) [OF n]
  from Suc.prems j have
    "(\<not> length (prefixOf parts i) < MIN_FRAGMENT_LENGTH \<and>
      \<not> (suffixOf parts j \<noteq> [] \<and> length (suffixOf parts j) < MIN_FRAGMENT_LENGTH) \<and>
      scanSourcesAt (prefixOf parts i @ [DOLLAR, LBRACE]) (suffixOf parts j) sources = Some f \<and>
      a = i \<and> b = j)
     \<or> loopJAt parts sources i (Suc j) = Some (a, b, f)"
    by (subst (asm) loopJAt.simps) (auto simp: Let_def split: if_splits option.splits)
  then show ?case
  proof
    assume h: "\<not> length (prefixOf parts i) < MIN_FRAGMENT_LENGTH \<and>
      \<not> (suffixOf parts j \<noteq> [] \<and> length (suffixOf parts j) < MIN_FRAGMENT_LENGTH) \<and>
      scanSourcesAt (prefixOf parts i @ [DOLLAR, LBRACE]) (suffixOf parts j) sources = Some f \<and>
      a = i \<and> b = j"
    then have "f \<in> set sources \<and>
        fileMatches (prefixOf parts i @ [DOLLAR, LBRACE]) (suffixOf parts j) (content f)"
      using scanSourcesAt_Some by blast
    with h j show ?thesis by simp
  next
    assume "loopJAt parts sources i (Suc j) = Some (a, b, f)"
    from IH [OF this] show ?thesis by simp
  qed
qed

lemma loopIAt_Some:
  "loopIAt parts sources i = Some (a, b, f) \<Longrightarrow>
     i \<le> a \<and> a < b \<and> b \<le> length parts \<and> f \<in> set sources \<and>
     \<not> length (prefixOf parts a) < MIN_FRAGMENT_LENGTH \<and>
     \<not> (suffixOf parts b \<noteq> [] \<and> length (suffixOf parts b) < MIN_FRAGMENT_LENGTH) \<and>
     fileMatches (prefixOf parts a @ [DOLLAR, LBRACE]) (suffixOf parts b) (content f)"
proof (induction "length parts - i" arbitrary: i)
  case 0
  then have "\<not> i < length parts" by simp
  with 0 show ?case by (subst (asm) loopIAt.simps) simp
next
  case (Suc n)
  then have i: "i < length parts" and n: "n = length parts - (Suc i)" by simp_all
  note IH = Suc.hyps(1) [OF n]
  from Suc.prems i have
    "loopJAt parts sources i (Suc i) = Some (a, b, f) \<or> loopIAt parts sources (Suc i) = Some (a, b, f)"
    by (subst (asm) loopIAt.simps) (auto split: option.splits)
  then show ?case
  proof
    assume "loopJAt parts sources i (Suc i) = Some (a, b, f)"
    from loopJAt_Some [OF this] show ?thesis by simp
  next
    assume "loopIAt parts sources (Suc i) = Some (a, b, f)"
    from IH [OF this] show ?thesis by simp
  qed
qed

lemma scanSourcesAt_first:
  "scanSourcesAt pv suf fs = Some f \<Longrightarrow>
     \<exists>k < length fs. f = fs ! k \<and> fileMatches pv suf (content (fs ! k)) \<and>
        (\<forall>k' < k. \<not> fileMatches pv suf (content (fs ! k')))"
proof (induction fs)
  case Nil
  then show ?case by simp
next
  case (Cons g fs)
  show ?case
  proof (cases "fileMatches pv suf (content g)")
    case True
    with Cons.prems have "f = g" by simp
    with True show ?thesis by (intro exI [of _ 0]) simp
  next
    case False
    with Cons.prems have "scanSourcesAt pv suf fs = Some f" by simp
    from Cons.IH [OF this] obtain k where k: "k < length fs" "f = fs ! k"
      "fileMatches pv suf (content (fs ! k))"
      "\<forall>k' < k. \<not> fileMatches pv suf (content (fs ! k'))"
      by blast
    show ?thesis
    proof (intro exI [of _ "Suc k"] conjI allI impI)
      fix k' assume "k' < Suc k"
      then show "\<not> fileMatches pv suf (content ((g # fs) ! k'))"
        using False k(4) by (cases k') auto
    qed (use k in auto)
  qed
qed

lemma loopJAt_end: "\<not> j \<le> length parts \<Longrightarrow> loopJAt parts sources i j = None"
  by (subst loopJAt.simps) simp

lemma loopJAt_step:
  "j \<le> length parts \<Longrightarrow>
   loopJAt parts sources i j =
     (if length (prefixOf parts i) < MIN_FRAGMENT_LENGTH \<or>
         (suffixOf parts j \<noteq> [] \<and> length (suffixOf parts j) < MIN_FRAGMENT_LENGTH)
      then loopJAt parts sources i (Suc j)
      else (case scanSourcesAt (prefixOf parts i @ [DOLLAR, LBRACE]) (suffixOf parts j) sources of
              Some f \<Rightarrow> Some (i, j, f)
            | None \<Rightarrow> loopJAt parts sources i (Suc j)))"
  by (subst loopJAt.simps) (auto simp: Let_def split: option.splits)

lemma cand_here_At:
  "(\<forall>k < length sources. \<not> cand parts sources i j k) \<longleftrightarrow>
     (length (prefixOf parts i) < MIN_FRAGMENT_LENGTH \<or>
      (suffixOf parts j \<noteq> [] \<and> length (suffixOf parts j) < MIN_FRAGMENT_LENGTH) \<or>
      scanSourcesAt (prefixOf parts i @ [DOLLAR, LBRACE]) (suffixOf parts j) sources = None)"
  unfolding cand_here by (simp add: scanSources_At)

lemma loopJAt_first:
  "loopJAt parts sources i j = Some c \<Longrightarrow>
     \<exists>j' k. c = (i, j', sources ! k) \<and> j \<le> j' \<and> j' \<le> length parts \<and> k < length sources \<and>
        cand parts sources i j' k \<and>
        (\<forall>j'' k'. j \<le> j'' \<and> k' < length sources \<and> (j'' < j' \<or> (j'' = j' \<and> k' < k))
            \<longrightarrow> \<not> cand parts sources i j'' k')"
proof (induction "Suc (length parts) - j" arbitrary: j)
  case 0
  then have "\<not> j \<le> length parts" by simp
  with 0 show ?case by (simp add: loopJAt_end)
next
  case (Suc n)
  then have j: "j \<le> length parts" and n: "n = Suc (length parts) - Suc j" by simp_all
  note IH = Suc.hyps(1) [OF n]
  let ?guard = "length (prefixOf parts i) < MIN_FRAGMENT_LENGTH \<or>
         (suffixOf parts j \<noteq> [] \<and> length (suffixOf parts j) < MIN_FRAGMENT_LENGTH)"
  let ?scan = "scanSourcesAt (prefixOf parts i @ [DOLLAR, LBRACE]) (suffixOf parts j) sources"
  show ?case
  proof (cases "\<not> ?guard \<and> ?scan \<noteq> None")
    case True
    then obtain f where f: "?scan = Some f" by auto
    with True Suc.prems have c: "c = (i, j, f)"
      by (auto simp: loopJAt_step [OF j] split: if_splits)
    from scanSourcesAt_first [OF f] obtain k where k: "k < length sources" "f = sources ! k"
      "fileMatches (prefixOf parts i @ [DOLLAR, LBRACE]) (suffixOf parts j) (content (sources ! k))"
      "\<forall>k' < k. \<not> fileMatches (prefixOf parts i @ [DOLLAR, LBRACE]) (suffixOf parts j) (content (sources ! k'))"
      by blast
    show ?thesis
    proof (rule exI [of _ j], rule exI [of _ k], intro conjI allI impI)
      show "cand parts sources i j k" using True k(3) by (simp add: cand_def)
    next
      fix j'' k'
      assume "j \<le> j'' \<and> k' < length sources \<and> (j'' < j \<or> j'' = j \<and> k' < k)"
      then have "j'' = j" "k' < k" by auto
      then show "\<not> cand parts sources i j'' k'" using k(4) by (simp add: cand_def)
    qed (use j k c in auto)
  next
    case False
    then have none: "\<forall>k < length sources. \<not> cand parts sources i j k"
      unfolding cand_here_At by auto
    from False Suc.prems have "loopJAt parts sources i (Suc j) = Some c"
      by (auto simp: loopJAt_step [OF j] split: option.splits if_splits)
    from IH [OF this] obtain j' k where jk: "c = (i, j', sources ! k)" "Suc j \<le> j'"
      "j' \<le> length parts" "k < length sources" "cand parts sources i j' k"
      "\<forall>j'' k'. Suc j \<le> j'' \<and> k' < length sources \<and> (j'' < j' \<or> (j'' = j' \<and> k' < k))
            \<longrightarrow> \<not> cand parts sources i j'' k'"
      by blast
    show ?thesis
    proof (rule exI [of _ j'], rule exI [of _ k], intro conjI allI impI)
      fix j'' k'
      assume a: "j \<le> j'' \<and> k' < length sources \<and> (j'' < j' \<or> j'' = j' \<and> k' < k)"
      show "\<not> cand parts sources i j'' k'"
      proof (cases "j'' = j")
        case True
        then show ?thesis using none a by simp
      next
        case False
        with a have "Suc j \<le> j''" by simp
        with a jk(6) show ?thesis by blast
      qed
    qed (use jk in auto)
  qed
qed

lemma loopIAt_end: "\<not> i < length parts \<Longrightarrow> loopIAt parts sources i = None"
  by (subst loopIAt.simps) simp

lemma loopIAt_step:
  "i < length parts \<Longrightarrow>
   loopIAt parts sources i =
     (case loopJAt parts sources i (Suc i) of
        Some c \<Rightarrow> Some c
      | None \<Rightarrow> loopIAt parts sources (Suc i))"
  by (subst loopIAt.simps) (auto split: option.splits)

lemma loopJAt_None:
  "loopJAt parts sources i j = None \<longleftrightarrow> loopJ parts sources i j = None"
  by (simp add: loopJ_At)

lemma loopIAt_first:
  "loopIAt parts sources i = Some c \<Longrightarrow>
     \<exists>i' j k. c = (i', j, sources ! k) \<and> i \<le> i' \<and> i' < j \<and> j \<le> length parts \<and>
        k < length sources \<and> cand parts sources i' j k \<and>
        (\<forall>a b m. i \<le> a \<and> a < b \<and> b \<le> length parts \<and> m < length sources \<and>
            earlier (a, b, m) (i', j, k) \<longrightarrow> \<not> cand parts sources a b m)"
proof (induction "length parts - i" arbitrary: i)
  case 0
  then have "\<not> i < length parts" by simp
  with 0 show ?case by (simp add: loopIAt_end)
next
  case (Suc n)
  then have i: "i < length parts" and n: "n = length parts - Suc i" by simp_all
  note IH = Suc.hyps(1) [OF n]
  show ?case
  proof (cases "loopJAt parts sources i (Suc i)")
    case (Some d)
    with Suc.prems have row: "loopJAt parts sources i (Suc i) = Some c"
      by (simp add: loopIAt_step [OF i])
    from loopJAt_first [OF row] obtain j k where jk: "c = (i, j, sources ! k)" "Suc i \<le> j"
      "j \<le> length parts" "k < length sources" "cand parts sources i j k"
      and first: "\<forall>j'' k'. Suc i \<le> j'' \<and> k' < length sources \<and> (j'' < j \<or> (j'' = j \<and> k' < k))
            \<longrightarrow> \<not> cand parts sources i j'' k'"
      by blast
    show ?thesis
    proof (rule exI [of _ i], rule exI [of _ j], rule exI [of _ k], intro conjI allI impI)
      fix a b m
      assume h: "i \<le> a \<and> a < b \<and> b \<le> length parts \<and> m < length sources \<and>
            earlier (a, b, m) (i, j, k)"
      then have "a = i" "b < j \<or> (b = j \<and> m < k)" by (auto simp: earlier_def)
      with h first show "\<not> cand parts sources a b m" by auto
    qed (use jk in auto)
  next
    case None
    then have row: "\<forall>j k. i < j \<and> j \<le> length parts \<and> k < length sources
        \<longrightarrow> \<not> cand parts sources i j k"
      by (auto simp: loopJAt_None loopJ_None Suc_le_eq)
    from None Suc.prems have "loopIAt parts sources (Suc i) = Some c"
      by (simp add: loopIAt_step [OF i])
    from IH [OF this] obtain i' j k where ijk: "c = (i', j, sources ! k)" "Suc i \<le> i'" "i' < j"
      "j \<le> length parts" "k < length sources" "cand parts sources i' j k"
      and first: "\<forall>a b m. Suc i \<le> a \<and> a < b \<and> b \<le> length parts \<and> m < length sources \<and>
            earlier (a, b, m) (i', j, k) \<longrightarrow> \<not> cand parts sources a b m"
      by blast
    show ?thesis
    proof (rule exI [of _ i'], rule exI [of _ j], rule exI [of _ k], intro conjI allI impI)
      fix a b m
      assume h: "i \<le> a \<and> a < b \<and> b \<le> length parts \<and> m < length sources \<and>
            earlier (a, b, m) (i', j, k)"
      show "\<not> cand parts sources a b m"
      proof (cases "a = i")
        case True
        with h row show ?thesis by blast
      next
        case False
        with h have "Suc i \<le> a" by simp
        with h first show ?thesis by blast
      qed
    qed (use ijk in auto)
  qed
qed

lemma earlier_total:
  "earlier (a, b, m) (i, j, k) \<or> (a, b, m) = (i, j, k) \<or> earlier (i, j, k) (a, b, m)"
  by (auto simp: earlier_def)

lemma scanSources_contains:
  assumes "suf \<noteq> []"
  shows "(scanSources pv suf sources = None \<longleftrightarrow>
        (\<forall>k < length sources.
            \<not> (containsStr (content (sources ! k)) pv \<and> containsStr (content (sources ! k)) suf)))"
    and "scanSources pv suf sources = Some loc \<Longrightarrow>
        \<exists>k < length sources.
          containsStr (content (sources ! k)) pv \<and> containsStr (content (sources ! k)) suf \<and>
          (\<forall>k' < k. \<not> (containsStr (content (sources ! k')) pv \<and>
                          containsStr (content (sources ! k')) suf)) \<and>
          loc = specLocation (sources ! k) pv"
proof -
  show "(scanSources pv suf sources = None \<longleftrightarrow>
        (\<forall>k < length sources.
            \<not> (containsStr (content (sources ! k)) pv \<and> containsStr (content (sources ! k)) suf)))"
    using assms by (simp add: scanSources_None fileMatches_iff)
next
  assume "scanSources pv suf sources = Some loc"
  from scanSources_Some [OF this] obtain k where k: "k < length sources"
    "fileMatches pv suf (content (sources ! k))"
    "\<forall>k' < k. \<not> fileMatches pv suf (content (sources ! k'))"
    "loc = \<lparr>loc_path = path (sources ! k), loc_line = lineOf (content (sources ! k)) pv\<rparr>"
    by blast
  from k(2) have "jsIncludes (content (sources ! k)) pv" by (simp add: fileMatches_def)
  from lineOf_spec [OF this] k(4) have "loc = specLocation (sources ! k) pv"
    by (simp add: specLocation_def)
  with k(1,2,3) assms show "\<exists>k < length sources.
          containsStr (content (sources ! k)) pv \<and> containsStr (content (sources ! k)) suf \<and>
          (\<forall>k' < k. \<not> (containsStr (content (sources ! k')) pv \<and>
                          containsStr (content (sources ! k')) suf)) \<and>
          loc = specLocation (sources ! k) pv"
    by (auto simp: fileMatches_iff)
qed

lemma accepted_contains:
  assumes "acceptedCandidate ident sources = Some (i, j, f)"
    and "suffixOf (jsSplit DASH ident) j \<noteq> []"
  shows "f \<in> set sources \<and>
    containsStr (content f) (prefixOf (jsSplit DASH ident) i @ js ''${'') \<and>
    containsStr (content f) (suffixOf (jsSplit DASH ident) j)"
proof -
  from assms(1) have "loopIAt (jsSplit DASH ident) sources 1 = Some (i, j, f)"
    by (simp add: acceptedCandidate_def)
  from loopIAt_Some [OF this] assms(2) show ?thesis
    by (simp add: fileMatches_iff js_dollar_brace)
qed

lemma findDynamicLocation_None_iff:
  "findDynamicLocation ident sources = None \<longleftrightarrow>
     (\<forall>i j k. validSplit (length (jsSplit DASH ident)) i j \<and> k < length sources \<longrightarrow>
        \<not> specAccepted (jsSplit DASH ident) i j (sources ! k))"
proof -
  have "findDynamicLocation ident sources = None \<longleftrightarrow>
     (\<forall>i j k. validSplit (length (jsSplit DASH ident)) i j \<and> k < length sources \<longrightarrow>
        \<not> cand (jsSplit DASH ident) sources i j k)"
    unfolding findDynamicLocation_def loopI_None validSplit_def by auto
  also have "\<dots> \<longleftrightarrow> (\<forall>i j k. validSplit (length (jsSplit DASH ident)) i j \<and> k < length sources \<longrightarrow>
        \<not> specAccepted (jsSplit DASH ident) i j (sources ! k))"
    by (auto simp: validSplit_def cand_spec)
  finally show ?thesis .
qed

lemma reached_candidate:
  fixes ident sources i j k
  defines "parts \<equiv> jsSplit DASH ident"
  assumes v: "validSplit (length parts) i j" and k: "k < length sources"
    and ne: "suffixOf parts j \<noteq> []"
    and g: "6 \<le> length (prefixOf parts i)" "6 \<le> length (suffixOf parts j)"
    and none: "\<forall>i' j' k'. validSplit (length parts) i' j' \<and> k' < length sources \<and>
          earlier (i', j', k') (i, j, k) \<longrightarrow> \<not> specAccepted parts i' j' (sources ! k')"
  shows "(acceptedCandidate ident sources = Some (i, j, sources ! k) \<longleftrightarrow>
       containsStr (content (sources ! k)) (prefixOf parts i @ js ''${'') \<and>
       containsStr (content (sources ! k)) (suffixOf parts j))"
    and "containsStr (content (sources ! k)) (prefixOf parts i @ js ''${'') \<and>
       containsStr (content (sources ! k)) (suffixOf parts j) \<Longrightarrow>
       findDynamicLocation ident sources =
         Some (specLocation (sources ! k) (prefixOf parts i @ js ''${''))"
proof -
  have hit: "acceptedCandidate ident sources = Some (i, j, sources ! k)"
    if both: "containsStr (content (sources ! k)) (prefixOf parts i @ js ''${'') \<and>
       containsStr (content (sources ! k)) (suffixOf parts j)"
  proof -
    from both g have c: "cand parts sources i j k"
      by (simp add: cand_def fileMatches_iff js_dollar_brace MIN_FRAGMENT_LENGTH_def)
    with v k have "loopI parts sources 1 \<noteq> None"
      unfolding loopI_None validSplit_def by blast
    then obtain d where d: "loopIAt parts sources 1 = Some d"
      by (auto simp: loopI_At)
    from loopIAt_first [OF d] obtain a b m where abm: "d = (a, b, sources ! m)"
      "1 \<le> a" "a < b" "b \<le> length parts" "m < length sources" "cand parts sources a b m"
      and first: "\<forall>a' b' m'. 1 \<le> a' \<and> a' < b' \<and> b' \<le> length parts \<and> m' < length sources \<and>
            earlier (a', b', m') (a, b, m) \<longrightarrow> \<not> cand parts sources a' b' m'"
      by blast
    have "\<not> earlier (i, j, k) (a, b, m)"
      using first v k c unfolding validSplit_def by blast
    moreover have "\<not> earlier (a, b, m) (i, j, k)"
    proof
      assume "earlier (a, b, m) (i, j, k)"
      with none abm(2-5) have "\<not> specAccepted parts a b (sources ! m)"
        unfolding validSplit_def by blast
      with abm(4,6) show False by (simp add: cand_spec)
    qed
    ultimately have "(a, b, m) = (i, j, k)" using earlier_total [of a b m i j k] by blast
    with abm(1) d show ?thesis by (simp add: acceptedCandidate_def parts_def)
  qed
  show "(acceptedCandidate ident sources = Some (i, j, sources ! k) \<longleftrightarrow>
       containsStr (content (sources ! k)) (prefixOf parts i @ js ''${'') \<and>
       containsStr (content (sources ! k)) (suffixOf parts j))"
  proof
    assume "acceptedCandidate ident sources = Some (i, j, sources ! k)"
    from accepted_contains [OF this] ne
    show "containsStr (content (sources ! k)) (prefixOf parts i @ js ''${'') \<and>
       containsStr (content (sources ! k)) (suffixOf parts j)"
      by (simp add: parts_def)
  next
    assume "containsStr (content (sources ! k)) (prefixOf parts i @ js ''${'') \<and>
       containsStr (content (sources ! k)) (suffixOf parts j)"
    then show "acceptedCandidate ident sources = Some (i, j, sources ! k)" by (rule hit)
  qed
  assume both: "containsStr (content (sources ! k)) (prefixOf parts i @ js ''${'') \<and>
       containsStr (content (sources ! k)) (suffixOf parts j)"
  then have inc: "jsIncludes (content (sources ! k)) (prefixOf parts i @ [DOLLAR, LBRACE])"
    by (simp add: containsStr_def jsIncludes_iff js_dollar_brace)
  have "findDynamicLocation ident sources = Some (locationOf parts (i, j, sources ! k))"
    using hit [OF both] by (simp add: findDynamicLocation_At parts_def)
  also have "locationOf parts (i, j, sources ! k) =
      specLocation (sources ! k) (prefixOf parts i @ js ''${'')"
    using lineOf_spec [OF inc] by (simp add: locationOf_def specLocation_def js_dollar_brace)
  finally show "findDynamicLocation ident sources =
         Some (specLocation (sources ! k) (prefixOf parts i @ js ''${''))" .
qed

subsection \<open>The run\<close>

lemma report_outcome:
  "outcome (report h ids sources) = ExitCode (if unused ids sources = [] then 0 else 1)"
  by (simp add: report_def Let_def)

lemma main_completes:
  assumes "readFileSync h (FTL_PATH h) = Inr text"
    and "loadSources h SEARCH_DIRS SEARCH_EXTENSIONS = Inr sources"
  shows "main h = (report h (parseFtlIds text) sources)
     \<lparr>printed := [LogFound (length (parseFtlIds text)), LogSearching (length sources) SEARCH_DIRS]
        @ printed (report h (parseFtlIds text) sources)\<rparr>"
  using assms by (simp add: main_def extractFtlIds_def Let_def)

lemma collectDirs_fails:
  "d \<in> set dirs \<Longrightarrow>
   collectFiles h (pathJoin h [ROOT h, d]) (nodeAt h (pathJoin h [ROOT h, d])) extensions = Inl e \<Longrightarrow>
   \<exists>e'. collectDirs h dirs extensions = Inl e'"
  by (induction dirs) (auto split: sum.splits)

subsection \<open>The example inputs, evaluated\<close>

lemmas chars = js_def DASH_def NEWLINE_def DQUOTE_def SQUOTE_def BACKTICK_def DOLLAR_def
  LBRACE_def EQUALS_def SLASH_def

lemmas search_eval = findDynamicLocation_def acceptedCandidate_def loopI.simps loopJ.simps
  loopIAt.simps loopJAt.simps prefixOf_def suffixOf_def jsSlice_def jsSliceFrom_def jsClamp_def
  jsIndexOf_def MIN_FRAGMENT_LENGTH_def fileMatches_def lineOf_def Let_def

lemma demo_parse: "parseFtlIds demoCatalog = demoIds"
  by (simp add: parseFtlIds_def demoCatalog_def demoIds_def matchFtlLine_def isLetter_def
      isIdChar_def isSpace_def chars)

lemma demo_ftl_path: "FTL_PATH demoHost = js ''/r/l10n/en-US/viewer.ftl''"
  by (simp add: FTL_PATH_def demoHost_def chars)

lemma demo_load: "loadSources demoHost SEARCH_DIRS SEARCH_EXTENSIONS = Inr [demoFile]"
  by (simp add: loadSources_def SEARCH_DIRS_def SEARCH_EXTENSIONS_def demoHost_def demoFile_def chars)

lemma demo_read: "readFileSync demoHost (FTL_PATH demoHost) = Inr demoCatalog"
  by (simp add: demo_ftl_path) (simp add: demoHost_def)

lemma broken_read: "readFileSync brokenHost (FTL_PATH brokenHost) = Inr demoCatalog"
  using demo_read by (simp add: brokenHost_def FTL_PATH_def)

lemma broken_node: "nodeAt brokenHost (pathJoin brokenHost [ROOT brokenHost, js ''web'']) = NoDir ENOENT"
  by (simp add: brokenHost_def)

lemma broken_load: "loadSources brokenHost SEARCH_DIRS SEARCH_EXTENSIONS = Inl ENOENT"
  by (simp add: loadSources_def SEARCH_DIRS_def brokenHost_def)

lemma demo_used:
  "isUsed (js ''foo-bar'') [demoFile]"
  "\<not> isUsed (js ''pdfjs-x-alert'') [demoFile]"
  "\<not> isUsed (js ''ab'') [demoFile]"
  by (simp_all add: isUsed_def demoFile_def chars)

lemma demo_split: "jsSplit DASH (js ''pdfjs-x-alert'') = [js ''pdfjs'', js ''x'', js ''alert'']"
  by (simp add: chars)

lemma demo_dynamic:
  "findDynamicLocation (js ''pdfjs-x-alert'') [demoFile] =
     Some \<lparr>loc_path = js ''/r/web/a.js'', loc_line = 2\<rparr>"
  by (simp add: search_eval demoFile_def chars)

lemma demo_candidate:
  "acceptedCandidate (js ''pdfjs-x-alert'') [demoFile] = Some (1, 2, demoFile)"
  by (simp add: search_eval demoFile_def chars)

lemma demo_nodash: "findDynamicLocation (js ''ab'') [demoFile] = None"
  by (simp add: search_eval demoFile_def chars)

lemma demo_groups:
  "usedGroup demoIds [demoFile] = [js ''foo-bar'', js ''foo-bar'']"
  "dynamicEntries demoIds [demoFile] =
     [(js ''pdfjs-x-alert'', Some \<lparr>loc_path = js ''/r/web/a.js'', loc_line = 2\<rparr>)]"
  "unused demoIds [demoFile] = [js ''ab'']"
  by (simp_all add: usedGroup_def dynamic_names_eq dynamicEntries_eq unused_eq demoIds_def
      demo_used demo_dynamic demo_nodash)

lemma demo_main:
  "main demoHost =
     \<lparr>printed = [LogFound 4, LogSearching 1 SEARCH_DIRS, LogDynamicHeader 1,
                 LogDynamicId (js ''pdfjs-x-alert''), LogDynamicLoc (js ''web/a.js'') 2, LogBlank,
                 LogUnusedHeader 1, LogUnusedId (js ''ab'')],
      outcome = ExitCode 1\<rparr>"
proof -
  have n: "length demoIds = 4" by (simp add: demoIds_def)
  have root: "ROOT demoHost = js ''/r''" by (simp add: demoHost_def)
  show ?thesis
    unfolding main_completes [OF demo_read demo_load] demo_parse
    by (simp add: report_def Let_def demo_groups n logEntry_def root jsRemoveFirst_def
        jsIndexOf_def chars)
qed

section \<open>The claims\<close>

subsection \<open>C1: the three groups partition the identifier list\<close>

text \<open>
  Claim C1. For every identifier list and corpus, the Used, LikelyDynamic and Unused
  groups together hold every declared identifier as often as it is declared (equality of
  multisets), and no identifier is in two groups.
\<close>

theorem classes_partition:
  "mset ids = mset (usedGroup ids sources) + mset (map fst (dynamicEntries ids sources))
       + mset (unused ids sources)
   \<and> set (usedGroup ids sources) \<inter> dynamicIds ids sources = {}
   \<and> set (usedGroup ids sources) \<inter> set (unused ids sources) = {}
   \<and> dynamicIds ids sources \<inter> set (unused ids sources) = {}"
proof (intro conjI)
  show "mset ids = mset (usedGroup ids sources) + mset (map fst (dynamicEntries ids sources))
       + mset (unused ids sources)"
    unfolding dynamic_names_eq unused_eq usedGroup_def
    by (induction ids) auto
  show "set (usedGroup ids sources) \<inter> dynamicIds ids sources = {}"
    by (auto simp: usedGroup_def dynamicIds_eq)
  show "set (usedGroup ids sources) \<inter> set (unused ids sources) = {}"
    by (auto simp: usedGroup_def unused_eq)
  show "dynamicIds ids sources \<inter> set (unused ids sources) = {}"
    by (auto simp: dynamicIds_eq unused_eq)
qed

theorem classes_partition_witness:
  "usedGroup demoIds [demoFile] = [js ''foo-bar'', js ''foo-bar''] \<and>
   map fst (dynamicEntries demoIds [demoFile]) = [js ''pdfjs-x-alert''] \<and>
   unused demoIds [demoFile] = [js ''ab''] \<and>
   mset demoIds = mset [js ''foo-bar'', js ''foo-bar''] + mset [js ''pdfjs-x-alert'']
       + mset [js ''ab'']"
  using classes_partition [of demoIds "[demoFile]"] by (simp add: demo_groups)

subsection \<open>C2: the static matcher\<close>

text \<open>
  Claim C2. \<open>isUsed\<close> holds exactly when some file's content contains the identifier
  between two double quotes, two single quotes or two backticks; and an identifier for
  which it holds is in the Used group as often as it is declared, and in neither of the
  other two groups.
\<close>

theorem isUsed_static_match:
  "(isUsed ident sources \<longleftrightarrow>
      (\<exists>f \<in> set sources. \<exists>q \<in> {DQUOTE, SQUOTE, BACKTICK}.
          containsStr (content f) ([q] @ ident @ [q]))) \<and>
   (isUsed ident sources \<longrightarrow>
      count_list (usedGroup ids sources) ident = count_list ids ident \<and>
      ident \<notin> dynamicIds ids sources \<and> ident \<notin> set (unused ids sources))"
proof
  show "isUsed ident sources \<longleftrightarrow>
      (\<exists>f \<in> set sources. \<exists>q \<in> {DQUOTE, SQUOTE, BACKTICK}.
          containsStr (content f) ([q] @ ident @ [q]))"
    by (auto simp: isUsed_def list_ex_iff jsIncludes_iff containsStr_def Let_def)
  show "isUsed ident sources \<longrightarrow>
      count_list (usedGroup ids sources) ident = count_list ids ident \<and>
      ident \<notin> dynamicIds ids sources \<and> ident \<notin> set (unused ids sources)"
    by (simp add: usedGroup_def count_list_filter dynamicIds_eq unused_eq)
qed

theorem isUsed_static_match_witness:
  "isUsed (js ''foo-bar'') [demoFile] \<and>
   (\<exists>f \<in> set [demoFile]. \<exists>q \<in> {DQUOTE, SQUOTE, BACKTICK}.
       containsStr (content f) ([q] @ js ''foo-bar'' @ [q])) \<and>
   count_list (usedGroup demoIds [demoFile]) (js ''foo-bar'') = 2 \<and>
   js ''foo-bar'' \<notin> dynamicIds demoIds [demoFile] \<and>
   js ''foo-bar'' \<notin> set (unused demoIds [demoFile])"
proof -
  have n: "count_list demoIds (js ''foo-bar'') = 2"
    by (simp add: demoIds_def chars)
  show ?thesis
    using isUsed_static_match [of "js ''foo-bar''" "[demoFile]" demoIds] demo_used(1) n
    by simp
qed

subsection \<open>C3: the first match of the dynamic search\<close>

text \<open>
  Claim C3. For every identifier (with a dash or without) and every corpus: when
  \<open>findDynamicLocation\<close> returns none, no split \<open>1 \<le> i < j \<le> N\<close> and file pass the guards
  and the containment tests; when it returns a location, there is an accepted triple
  \<open>(i, j, k)\<close> that no accepted triple precedes in the order smallest \<open>i\<close>, then smallest
  \<open>j\<close>, then first file, and the location is the path of file \<open>k\<close> with the line number
  one plus the number of newlines before the first occurrence of the prefix followed by
  \<open>${\<close> in its content.
\<close>

theorem findDynamicLocation_first_match:
  "(case findDynamicLocation ident sources of
      None \<Rightarrow>
        (\<forall>i j k. validSplit (length (jsSplit DASH ident)) i j \<and> k < length sources \<longrightarrow>
           \<not> specAccepted (jsSplit DASH ident) i j (sources ! k))
    | Some loc \<Rightarrow>
        (\<exists>i j k. firstAccepted (jsSplit DASH ident) sources i j k \<and>
           loc = specLocation (sources ! k) (specPrefix (jsSplit DASH ident) i @ js ''${'')))"
proof (cases "findDynamicLocation ident sources")
  case None
  then have "loopI (jsSplit DASH ident) sources 1 = None"
    by (simp add: findDynamicLocation_def)
  then have "\<forall>i j k. validSplit (length (jsSplit DASH ident)) i j \<and> k < length sources \<longrightarrow>
           \<not> cand (jsSplit DASH ident) sources i j k"
    by (auto simp: loopI_None validSplit_def)
  then have "\<forall>i j k. validSplit (length (jsSplit DASH ident)) i j \<and> k < length sources \<longrightarrow>
           \<not> specAccepted (jsSplit DASH ident) i j (sources ! k)"
    by (auto simp: validSplit_def cand_spec)
  with None show ?thesis by simp
next
  case (Some loc)
  let ?parts = "jsSplit DASH ident"
  from Some have "loopI ?parts sources 1 = Some loc"
    by (simp add: findDynamicLocation_def)
  from loopI_Some [OF this] obtain i j k where ijk: "1 \<le> i" "i < j" "j \<le> length ?parts"
      "k < length sources" and c: "cand ?parts sources i j k"
      and first: "\<forall>a b c. 1 \<le> a \<and> a < b \<and> b \<le> length ?parts \<and> c < length sources \<and>
            earlier (a, b, c) (i, j, k) \<longrightarrow> \<not> cand ?parts sources a b c"
      and loc: "loc = locAt ?parts sources i k"
    by blast
  have "firstAccepted ?parts sources i j k"
    unfolding firstAccepted_def validSplit_def
    using ijk c first by (auto simp: cand_spec [symmetric])
  moreover have "loc = specLocation (sources ! k) (specPrefix ?parts i @ js ''${'')"
    using loc locAt_spec [OF c] by simp
  ultimately show ?thesis using Some by auto
qed

theorem findDynamicLocation_first_match_witness:
  "findDynamicLocation (js ''pdfjs-x-alert'') [demoFile] =
     Some \<lparr>loc_path = js ''/r/web/a.js'', loc_line = 2\<rparr> \<and>
   (\<exists>i j k. firstAccepted (jsSplit DASH (js ''pdfjs-x-alert'')) [demoFile] i j k \<and>
      \<lparr>loc_path = js ''/r/web/a.js'', loc_line = 2\<rparr> =
        specLocation ([demoFile] ! k) (specPrefix (jsSplit DASH (js ''pdfjs-x-alert'')) i @ js ''${''))"
  using findDynamicLocation_first_match [of "js ''pdfjs-x-alert''" "[demoFile]"]
  unfolding demo_dynamic by simp

subsection \<open>C4: the length guards\<close>

lemma short_split: "jsSplit DASH (js ''pdfjs-x-y'') = [js ''pdfjs'', js ''x'', js ''y'']"
  by (simp add: chars)

lemma short_candidate: "acceptedCandidate (js ''pdfjs-x-y'') [shortFile] = Some (1, 3, shortFile)"
  by (simp add: search_eval shortFile_def chars)

lemma short_tail:
  "suffixOf [js ''pdfjs'', js ''x'', js ''y''] 2 = js ''-y''"
  "suffixOf [js ''pdfjs'', js ''x'', js ''y''] 3 = []"
  "prefixOf [js ''pdfjs'', js ''x'', js ''y''] (Suc 0) = js ''pdfjs-''"
  by (simp_all add: suffixOf_def prefixOf_def jsSlice_def jsSliceFrom_def jsClamp_def chars)

lemma short_tail_present:
  "fileMatches (js ''pdfjs-'' @ [DOLLAR, LBRACE]) (js ''-y'') (content shortFile)"
  by (simp add: fileMatches_def shortFile_def chars)

text \<open>
  Claim C4. The candidate at which \<open>findDynamicLocation\<close> returns always has a prefix of
  at least 6 units (trailing dash included) and a suffix that is empty or has at least 6
  units (leading dash included); the location returned is the one built from that
  candidate. A candidate with an empty suffix needs the prefix test alone: whenever some
  prefix of at least 6 units is followed by \<open>${\<close> in some file, the search succeeds.
\<close>

theorem fragment_length_guards:
  "(\<forall>i j f. acceptedCandidate ident sources = Some (i, j, f) \<longrightarrow>
      6 \<le> length (prefixOf (jsSplit DASH ident) i) \<and>
      (suffixOf (jsSplit DASH ident) j = [] \<or> 6 \<le> length (suffixOf (jsSplit DASH ident) j))) \<and>
   findDynamicLocation ident sources =
     map_option (locationOf (jsSplit DASH ident)) (acceptedCandidate ident sources) \<and>
   (\<forall>i k. 1 \<le> i \<and> i < length (jsSplit DASH ident) \<and> k < length sources \<and>
      6 \<le> length (prefixOf (jsSplit DASH ident) i) \<and>
      jsIncludes (content (sources ! k)) (prefixOf (jsSplit DASH ident) i @ js ''${'') \<longrightarrow>
      findDynamicLocation ident sources \<noteq> None)"
proof (intro conjI allI impI)
  fix i j f
  assume "acceptedCandidate ident sources = Some (i, j, f)"
  then have "loopIAt (jsSplit DASH ident) sources 1 = Some (i, j, f)"
    by (simp add: acceptedCandidate_def)
  from loopIAt_Some [OF this]
  show "6 \<le> length (prefixOf (jsSplit DASH ident) i)"
    and "suffixOf (jsSplit DASH ident) j = [] \<or> 6 \<le> length (suffixOf (jsSplit DASH ident) j)"
    by (auto simp: MIN_FRAGMENT_LENGTH_def)
next
  show "findDynamicLocation ident sources =
     map_option (locationOf (jsSplit DASH ident)) (acceptedCandidate ident sources)"
    by (rule findDynamicLocation_At)
next
  fix i k
  let ?parts = "jsSplit DASH ident"
  assume a: "1 \<le> i \<and> i < length ?parts \<and> k < length sources \<and>
      6 \<le> length (prefixOf ?parts i) \<and>
      jsIncludes (content (sources ! k)) (prefixOf ?parts i @ js ''${'')"
  have "suffixOf ?parts (length ?parts) = []" by (simp add: suffixOf_def)
  with a have "cand ?parts sources i (length ?parts) k"
    by (simp add: cand_def fileMatches_def MIN_FRAGMENT_LENGTH_def js_dollar_brace)
  with a have "loopI ?parts sources 1 \<noteq> None"
    unfolding loopI_None by blast
  then show "findDynamicLocation ident sources \<noteq> None"
    by (simp add: findDynamicLocation_def)
qed

theorem fragment_length_guards_witness:
  "acceptedCandidate (js ''pdfjs-x-y'') [shortFile] = Some (1, 3, shortFile) \<and>
   6 \<le> length (prefixOf (jsSplit DASH (js ''pdfjs-x-y'')) 1) \<and>
   suffixOf (jsSplit DASH (js ''pdfjs-x-y'')) 3 = [] \<and>
   length (suffixOf (jsSplit DASH (js ''pdfjs-x-y'')) 2) = 2 \<and>
   fileMatches (prefixOf (jsSplit DASH (js ''pdfjs-x-y'')) 1 @ [DOLLAR, LBRACE])
     (suffixOf (jsSplit DASH (js ''pdfjs-x-y'')) 2) (content shortFile) \<and>
   findDynamicLocation (js ''pdfjs-x-y'') [shortFile] =
     Some (locationOf (jsSplit DASH (js ''pdfjs-x-y'')) (1, 3, shortFile))"
proof -
  have len: "length (js ''-y'') = 2" "length (js ''pdfjs-'') = 6" by (simp_all add: js_def)
  show ?thesis
    using fragment_length_guards [of "js ''pdfjs-x-y''" "[shortFile]"] short_tail_present
    by (simp add: short_candidate short_split short_tail len)
qed

subsection \<open>C5: identifiers without a dash\<close>

text \<open>
  Claim C5. An identifier without a dash splits into one part, \<open>findDynamicLocation\<close>
  returns none for it whatever the corpus, and if it is not statically used either, every
  declaration of it is in the Unused group and it is in neither of the other groups.
\<close>

theorem no_dash_unused:
  assumes "DASH \<notin> set ident"
  shows "length (jsSplit DASH ident) = 1 \<and>
    findDynamicLocation ident sources = None \<and>
    (\<not> isUsed ident sources \<longrightarrow>
       count_list (unused ids sources) ident = count_list ids ident \<and>
       ident \<notin> dynamicIds ids sources \<and> ident \<notin> set (usedGroup ids sources))"
proof -
  have one: "jsSplit DASH ident = [ident]" using assms by (rule jsSplit_no_sep)
  then have none: "findDynamicLocation ident sources = None"
    by (simp add: findDynamicLocation_def loopI_end)
  show ?thesis
    using one none by (simp add: unused_eq count_list_filter dynamicIds_eq usedGroup_def)
qed

theorem no_dash_unused_witness:
  "DASH \<notin> set (js ''ab'') \<and>
   findDynamicLocation (js ''ab'') [demoFile] = None \<and>
   \<not> isUsed (js ''ab'') [demoFile] \<and>
   count_list (unused demoIds [demoFile]) (js ''ab'') = 1 \<and>
   js ''ab'' \<notin> dynamicIds demoIds [demoFile] \<and>
   js ''ab'' \<notin> set (usedGroup demoIds [demoFile])"
proof -
  have d: "DASH \<notin> set (js ''ab'')" by (simp add: chars)
  have n: "count_list demoIds (js ''ab'') = 1" by (simp add: demoIds_def chars)
  show ?thesis
    using no_dash_unused [OF d, of "[demoFile]" demoIds] d n demo_used(3) by simp
qed

subsection \<open>C6: the suffix may stand anywhere in the file\<close>

lemma swapped_matches:
  "fileMatches (js ''pdfjs-'' @ js ''${'') (js ''-alert'') (content swappedFile)"
  by (simp add: fileMatches_def swappedFile_def chars)

lemma tail_fails:
  "\<not> fileMatches (js ''pdfjs-'' @ js ''${'') (js ''-alert'') (content tailFile)"
  by (simp add: fileMatches_def tailFile_def chars)

lemma swapped_fragments:
  "prefixOf (jsSplit DASH (js ''pdfjs-x-alert'')) (Suc 0) = js ''pdfjs-''"
  "suffixOf (jsSplit DASH (js ''pdfjs-x-alert'')) 2 = js ''-alert''"
  unfolding demo_split
  by (simp_all add: suffixOf_def prefixOf_def jsSlice_def jsSliceFrom_def jsClamp_def chars)

lemma swapped_scan:
  "scanSources (js ''pdfjs-'' @ js ''${'') (js ''-alert'') [tailFile, swappedFile] =
     Some \<lparr>loc_path = js ''/r/web/s.js'', loc_line = 2\<rparr>"
  by (simp add: search_eval tailFile_def swappedFile_def chars)

lemma swapped_candidate:
  "acceptedCandidate (js ''pdfjs-x-alert'') [tailFile, swappedFile] = Some (1, 2, swappedFile)"
  by (simp add: search_eval tailFile_def swappedFile_def chars)

lemma swapped_location:
  "findDynamicLocation (js ''pdfjs-x-alert'') [tailFile, swappedFile] =
     Some \<lparr>loc_path = js ''/r/web/s.js'', loc_line = 2\<rparr>"
  by (simp add: search_eval tailFile_def swappedFile_def chars)

text \<open>
  Claim C6. For a candidate with a non-empty suffix, a file is accepted exactly when its
  content contains the prefix followed by \<open>${\<close> and contains the suffix, wherever the
  suffix stands (for instance before the prefix, with other text in between). This is
  stated of the test on one file, of the loop over the files (it returns none exactly when
  no file contains both, and otherwise the location in the first file that does), and of
  the whole search: a candidate at which the search returns has both fragments in its
  file; a candidate that passed the length guards and that no accepted triple precedes is
  the one the search returns at exactly when its file contains both; the location
  returned is the one built from the returned candidate; and the search returns none
  exactly when no split and file pass the guards and contain the fragments.
\<close>

theorem file_wide_containment:
  "(suf \<noteq> [] \<longrightarrow>
      (fileMatches (pre @ js ''${'') suf cont \<longleftrightarrow>
         containsStr cont (pre @ js ''${'') \<and> containsStr cont suf)) \<and>
   (\<forall>x y z. fileMatches (pre @ js ''${'') suf (x @ suf @ y @ pre @ js ''${'' @ z)) \<and>
   (\<forall>i j k. validSplit (length (jsSplit DASH ident)) i j \<and> k < length sources \<and>
      suffixOf (jsSplit DASH ident) j \<noteq> [] \<and>
      6 \<le> length (prefixOf (jsSplit DASH ident) i) \<and>
      6 \<le> length (suffixOf (jsSplit DASH ident) j) \<and>
      fileMatches (prefixOf (jsSplit DASH ident) i @ js ''${'') (suffixOf (jsSplit DASH ident) j)
        (content (sources ! k)) \<longrightarrow>
      findDynamicLocation ident sources \<noteq> None) \<and>
   (suf \<noteq> [] \<longrightarrow>
      (scanSources (pre @ js ''${'') suf sources = None \<longleftrightarrow>
         (\<forall>k < length sources.
             \<not> (containsStr (content (sources ! k)) (pre @ js ''${'') \<and>
                containsStr (content (sources ! k)) suf))) \<and>
      (\<forall>loc. scanSources (pre @ js ''${'') suf sources = Some loc \<longrightarrow>
         (\<exists>k < length sources.
             containsStr (content (sources ! k)) (pre @ js ''${'') \<and>
             containsStr (content (sources ! k)) suf \<and>
             (\<forall>k' < k. \<not> (containsStr (content (sources ! k')) (pre @ js ''${'') \<and>
                             containsStr (content (sources ! k')) suf)) \<and>
             loc = specLocation (sources ! k) (pre @ js ''${'')))) \<and>
   (\<forall>i j f. acceptedCandidate ident sources = Some (i, j, f) \<and>
      suffixOf (jsSplit DASH ident) j \<noteq> [] \<longrightarrow>
      f \<in> set sources \<and>
      containsStr (content f) (prefixOf (jsSplit DASH ident) i @ js ''${'') \<and>
      containsStr (content f) (suffixOf (jsSplit DASH ident) j)) \<and>
   (\<forall>i j k. validSplit (length (jsSplit DASH ident)) i j \<and> k < length sources \<and>
      suffixOf (jsSplit DASH ident) j \<noteq> [] \<and>
      6 \<le> length (prefixOf (jsSplit DASH ident) i) \<and>
      6 \<le> length (suffixOf (jsSplit DASH ident) j) \<and>
      (\<forall>i' j' k'. validSplit (length (jsSplit DASH ident)) i' j' \<and> k' < length sources \<and>
          earlier (i', j', k') (i, j, k) \<longrightarrow>
          \<not> specAccepted (jsSplit DASH ident) i' j' (sources ! k')) \<longrightarrow>
      (acceptedCandidate ident sources = Some (i, j, sources ! k) \<longleftrightarrow>
         containsStr (content (sources ! k)) (prefixOf (jsSplit DASH ident) i @ js ''${'') \<and>
         containsStr (content (sources ! k)) (suffixOf (jsSplit DASH ident) j)) \<and>
      (containsStr (content (sources ! k)) (prefixOf (jsSplit DASH ident) i @ js ''${'') \<and>
       containsStr (content (sources ! k)) (suffixOf (jsSplit DASH ident) j) \<longrightarrow>
         findDynamicLocation ident sources =
           Some (specLocation (sources ! k) (prefixOf (jsSplit DASH ident) i @ js ''${'')))) \<and>
   findDynamicLocation ident sources =
     map_option (locationOf (jsSplit DASH ident)) (acceptedCandidate ident sources) \<and>
   (findDynamicLocation ident sources = None \<longleftrightarrow>
      (\<forall>i j k. validSplit (length (jsSplit DASH ident)) i j \<and> k < length sources \<longrightarrow>
         \<not> specAccepted (jsSplit DASH ident) i j (sources ! k)))"
proof (intro conjI)
  show "suf \<noteq> [] \<longrightarrow>
      (fileMatches (pre @ js ''${'') suf cont \<longleftrightarrow>
         containsStr cont (pre @ js ''${'') \<and> containsStr cont suf)"
    by (simp add: fileMatches_iff)
next
  show "\<forall>x y z. fileMatches (pre @ js ''${'') suf (x @ suf @ y @ pre @ js ''${'' @ z)"
  proof (intro allI)
    fix x y z
    have "containsStr (x @ suf @ y @ pre @ js ''${'' @ z) (pre @ js ''${'')"
      unfolding containsStr_def
      by (rule exI [of _ "x @ suf @ y"], rule exI [of _ z]) simp
    moreover have "containsStr (x @ suf @ y @ pre @ js ''${'' @ z) suf"
      unfolding containsStr_def
      by (rule exI [of _ x], rule exI [of _ "y @ pre @ js ''${'' @ z"]) simp
    ultimately show "fileMatches (pre @ js ''${'') suf (x @ suf @ y @ pre @ js ''${'' @ z)"
      by (simp add: fileMatches_iff)
  qed
next
  show "\<forall>i j k. validSplit (length (jsSplit DASH ident)) i j \<and> k < length sources \<and>
      suffixOf (jsSplit DASH ident) j \<noteq> [] \<and>
      6 \<le> length (prefixOf (jsSplit DASH ident) i) \<and>
      6 \<le> length (suffixOf (jsSplit DASH ident) j) \<and>
      fileMatches (prefixOf (jsSplit DASH ident) i @ js ''${'') (suffixOf (jsSplit DASH ident) j)
        (content (sources ! k)) \<longrightarrow>
      findDynamicLocation ident sources \<noteq> None"
  proof (intro allI impI)
    fix i j k
    let ?parts = "jsSplit DASH ident"
    assume a: "validSplit (length ?parts) i j \<and> k < length sources \<and>
        suffixOf ?parts j \<noteq> [] \<and> 6 \<le> length (prefixOf ?parts i) \<and>
        6 \<le> length (suffixOf ?parts j) \<and>
        fileMatches (prefixOf ?parts i @ js ''${'') (suffixOf ?parts j) (content (sources ! k))"
    then have "cand ?parts sources i j k"
      by (simp add: cand_def MIN_FRAGMENT_LENGTH_def js_dollar_brace)
    with a have "loopI ?parts sources 1 \<noteq> None"
      unfolding loopI_None validSplit_def by blast
    then show "findDynamicLocation ident sources \<noteq> None"
      by (simp add: findDynamicLocation_def)
  qed
next
  show "suf \<noteq> [] \<longrightarrow>
      (scanSources (pre @ js ''${'') suf sources = None \<longleftrightarrow>
         (\<forall>k < length sources.
             \<not> (containsStr (content (sources ! k)) (pre @ js ''${'') \<and>
                containsStr (content (sources ! k)) suf))) \<and>
      (\<forall>loc. scanSources (pre @ js ''${'') suf sources = Some loc \<longrightarrow>
         (\<exists>k < length sources.
             containsStr (content (sources ! k)) (pre @ js ''${'') \<and>
             containsStr (content (sources ! k)) suf \<and>
             (\<forall>k' < k. \<not> (containsStr (content (sources ! k')) (pre @ js ''${'') \<and>
                             containsStr (content (sources ! k')) suf)) \<and>
             loc = specLocation (sources ! k) (pre @ js ''${'')))"
    using scanSources_contains [of suf "pre @ js ''${''" sources] by blast
next
  show "\<forall>i j f. acceptedCandidate ident sources = Some (i, j, f) \<and>
      suffixOf (jsSplit DASH ident) j \<noteq> [] \<longrightarrow>
      f \<in> set sources \<and>
      containsStr (content f) (prefixOf (jsSplit DASH ident) i @ js ''${'') \<and>
      containsStr (content f) (suffixOf (jsSplit DASH ident) j)"
    using accepted_contains by blast
next
  show "\<forall>i j k. validSplit (length (jsSplit DASH ident)) i j \<and> k < length sources \<and>
      suffixOf (jsSplit DASH ident) j \<noteq> [] \<and>
      6 \<le> length (prefixOf (jsSplit DASH ident) i) \<and>
      6 \<le> length (suffixOf (jsSplit DASH ident) j) \<and>
      (\<forall>i' j' k'. validSplit (length (jsSplit DASH ident)) i' j' \<and> k' < length sources \<and>
          earlier (i', j', k') (i, j, k) \<longrightarrow>
          \<not> specAccepted (jsSplit DASH ident) i' j' (sources ! k')) \<longrightarrow>
      (acceptedCandidate ident sources = Some (i, j, sources ! k) \<longleftrightarrow>
         containsStr (content (sources ! k)) (prefixOf (jsSplit DASH ident) i @ js ''${'') \<and>
         containsStr (content (sources ! k)) (suffixOf (jsSplit DASH ident) j)) \<and>
      (containsStr (content (sources ! k)) (prefixOf (jsSplit DASH ident) i @ js ''${'') \<and>
       containsStr (content (sources ! k)) (suffixOf (jsSplit DASH ident) j) \<longrightarrow>
         findDynamicLocation ident sources =
           Some (specLocation (sources ! k) (prefixOf (jsSplit DASH ident) i @ js ''${'')))"
  proof (intro allI impI, elim conjE)
    fix i j k
    let ?parts = "jsSplit DASH ident"
    assume v: "validSplit (length ?parts) i j" and k: "k < length sources"
      and ne: "suffixOf ?parts j \<noteq> []"
      and g: "6 \<le> length (prefixOf ?parts i)" "6 \<le> length (suffixOf ?parts j)"
      and none: "\<forall>i' j' k'. validSplit (length ?parts) i' j' \<and> k' < length sources \<and>
          earlier (i', j', k') (i, j, k) \<longrightarrow> \<not> specAccepted ?parts i' j' (sources ! k')"
    note r = reached_candidate [OF v k ne g none]
    show "(acceptedCandidate ident sources = Some (i, j, sources ! k) \<longleftrightarrow>
         containsStr (content (sources ! k)) (prefixOf ?parts i @ js ''${'') \<and>
         containsStr (content (sources ! k)) (suffixOf ?parts j)) \<and>
      (containsStr (content (sources ! k)) (prefixOf ?parts i @ js ''${'') \<and>
       containsStr (content (sources ! k)) (suffixOf ?parts j) \<longrightarrow>
         findDynamicLocation ident sources =
           Some (specLocation (sources ! k) (prefixOf ?parts i @ js ''${'')))"
      using r by blast
  qed
next
  show "findDynamicLocation ident sources =
     map_option (locationOf (jsSplit DASH ident)) (acceptedCandidate ident sources)"
    by (rule findDynamicLocation_At)
next
  show "findDynamicLocation ident sources = None \<longleftrightarrow>
      (\<forall>i j k. validSplit (length (jsSplit DASH ident)) i j \<and> k < length sources \<longrightarrow>
         \<not> specAccepted (jsSplit DASH ident) i j (sources ! k))"
    by (rule findDynamicLocation_None_iff)
qed

theorem file_wide_containment_witness:
  "js ''-alert'' \<noteq> [] \<and>
   content swappedFile = js ''-alert'' @ [NEWLINE] @ js ''pdfjs-'' @ js ''${'' @ [] \<and>
   fileMatches (js ''pdfjs-'' @ js ''${'') (js ''-alert'') (content swappedFile) \<and>
   containsStr (content swappedFile) (js ''pdfjs-'' @ js ''${'') \<and>
   containsStr (content swappedFile) (js ''-alert'') \<and>
   \<not> (containsStr (content tailFile) (js ''pdfjs-'' @ js ''${'') \<and>
      containsStr (content tailFile) (js ''-alert'')) \<and>
   validSplit (length (jsSplit DASH (js ''pdfjs-x-alert''))) 1 2 \<and>
   scanSources (js ''pdfjs-'' @ js ''${'') (js ''-alert'') [tailFile, swappedFile] =
     Some (specLocation swappedFile (js ''pdfjs-'' @ js ''${'')) \<and>
   acceptedCandidate (js ''pdfjs-x-alert'') [tailFile, swappedFile] = Some (1, 2, swappedFile) \<and>
   findDynamicLocation (js ''pdfjs-x-alert'') [tailFile, swappedFile] =
     Some \<lparr>loc_path = js ''/r/web/s.js'', loc_line = 2\<rparr> \<and>
   specLocation swappedFile (js ''pdfjs-'' @ js ''${'') =
     \<lparr>loc_path = js ''/r/web/s.js'', loc_line = 2\<rparr>"
proof -
  let ?parts = "jsSplit DASH (js ''pdfjs-x-alert'')"
  let ?srcs = "[tailFile, swappedFile]"
  note inst = file_wide_containment [of "js ''-alert''" "js ''pdfjs-''" "content swappedFile"
      "js ''pdfjs-x-alert''" ?srcs]
  note inst_tail = file_wide_containment [of "js ''-alert''" "js ''pdfjs-''" "content tailFile"
      "js ''pdfjs-x-alert''" ?srcs]
  have ne: "js ''-alert'' \<noteq> []" by (simp add: js_def)
  have c: "content swappedFile = js ''-alert'' @ [NEWLINE] @ js ''pdfjs-'' @ js ''${'' @ []"
    by (simp add: swappedFile_def js_def)
  have v: "validSplit (length ?parts) 1 2"
    unfolding demo_split by (simp add: validSplit_def)
  have l: "6 \<le> length (js ''pdfjs-'')" "6 \<le> length (js ''-alert'')" by (simp_all add: js_def)
  have pf: "prefixOf ?parts 1 = js ''pdfjs-''" "suffixOf ?parts 2 = js ''-alert''"
    using swapped_fragments by simp_all
  from inst ne swapped_matches
  have both: "containsStr (content swappedFile) (js ''pdfjs-'' @ js ''${'') \<and>
      containsStr (content swappedFile) (js ''-alert'')"
    by blast
  from inst_tail ne tail_fails
  have tail: "\<not> (containsStr (content tailFile) (js ''pdfjs-'' @ js ''${'') \<and>
      containsStr (content tailFile) (js ''-alert''))"
    by blast
  have sp: "specPrefix ?parts 1 = js ''pdfjs-''" "specSuffix ?parts 2 = js ''-alert''"
    using pf v by (simp_all add: prefixOf_spec [symmetric] suffixOf_spec [symmetric] validSplit_def)
  have first: "\<forall>i' j' k'. validSplit (length ?parts) i' j' \<and> k' < length ?srcs \<and>
          earlier (i', j', k') (1, 2, 1) \<longrightarrow> \<not> specAccepted ?parts i' j' (?srcs ! k')"
  proof (intro allI impI, elim conjE)
    fix i' j' k'
    assume a: "validSplit (length ?parts) i' j'" "k' < length ?srcs"
      "earlier (i', j', k') (1, 2, 1)"
    then have "i' = 1 \<and> j' = 2 \<and> k' = 0"
      by (auto simp: validSplit_def earlier_def)
    then show "\<not> specAccepted ?parts i' j' (?srcs ! k')"
      using tail ne sp by (simp add: specAccepted_def)
  qed
  from inst have reach: "validSplit (length ?parts) 1 2 \<and> 1 < length ?srcs \<and>
      suffixOf ?parts 2 \<noteq> [] \<and> 6 \<le> length (prefixOf ?parts 1) \<and>
      6 \<le> length (suffixOf ?parts 2) \<and>
      (\<forall>i' j' k'. validSplit (length ?parts) i' j' \<and> k' < length ?srcs \<and>
          earlier (i', j', k') (1, 2, 1) \<longrightarrow> \<not> specAccepted ?parts i' j' (?srcs ! k')) \<longrightarrow>
      (acceptedCandidate (js ''pdfjs-x-alert'') ?srcs = Some (1, 2, ?srcs ! 1) \<longleftrightarrow>
         containsStr (content (?srcs ! 1)) (prefixOf ?parts 1 @ js ''${'') \<and>
         containsStr (content (?srcs ! 1)) (suffixOf ?parts 2)) \<and>
      (containsStr (content (?srcs ! 1)) (prefixOf ?parts 1 @ js ''${'') \<and>
       containsStr (content (?srcs ! 1)) (suffixOf ?parts 2) \<longrightarrow>
         findDynamicLocation (js ''pdfjs-x-alert'') ?srcs =
           Some (specLocation (?srcs ! 1) (prefixOf ?parts 1 @ js ''${'')))"
    by blast
  have acc: "acceptedCandidate (js ''pdfjs-x-alert'') ?srcs = Some (1, 2, swappedFile)"
    and loc: "findDynamicLocation (js ''pdfjs-x-alert'') ?srcs =
           Some (specLocation swappedFile (js ''pdfjs-'' @ js ''${''))"
    using reach v ne l first both unfolding pf by simp_all
  from loc have sl: "specLocation swappedFile (js ''pdfjs-'' @ js ''${'') =
     \<lparr>loc_path = js ''/r/web/s.js'', loc_line = 2\<rparr>"
    by (simp add: swapped_location)
  have scan: "scanSources (js ''pdfjs-'' @ js ''${'') (js ''-alert'') ?srcs =
     Some (specLocation swappedFile (js ''pdfjs-'' @ js ''${''))"
    by (simp only: swapped_scan sl)
  from ne c swapped_matches both tail v scan acc sl swapped_location show ?thesis
    by blast
qed

subsection \<open>C7: the exit status\<close>

text \<open>
  Claim C7. When the catalog and the sources are read, the run ends with exit status 0 if
  the Unused group is empty and 1 otherwise; the status differs from 0 exactly when some
  declared identifier is neither statically used nor matched dynamically.
\<close>

theorem exit_status:
  assumes "readFileSync h (FTL_PATH h) = Inr catalog"
    and "loadSources h SEARCH_DIRS SEARCH_EXTENSIONS = Inr sources"
  shows "outcome (main h) =
      ExitCode (if unused (parseFtlIds catalog) sources = [] then 0 else 1) \<and>
    (outcome (main h) \<noteq> ExitCode 0 \<longleftrightarrow>
       (\<exists>ident \<in> set (parseFtlIds catalog).
          \<not> isUsed ident sources \<and> findDynamicLocation ident sources = None))"
proof -
  have o: "outcome (main h) =
      ExitCode (if unused (parseFtlIds catalog) sources = [] then 0 else 1)"
    by (simp add: main_completes [OF assms] report_outcome)
  have "unused (parseFtlIds catalog) sources \<noteq> [] \<longleftrightarrow>
       (\<exists>ident \<in> set (parseFtlIds catalog).
          \<not> isUsed ident sources \<and> findDynamicLocation ident sources = None)"
    by (auto simp: unused_eq filter_empty_conv)
  with o show ?thesis by auto
qed

theorem exit_status_witness:
  "readFileSync demoHost (FTL_PATH demoHost) = Inr demoCatalog \<and>
   loadSources demoHost SEARCH_DIRS SEARCH_EXTENSIONS = Inr [demoFile] \<and>
   unused (parseFtlIds demoCatalog) [demoFile] = [js ''ab''] \<and>
   outcome (main demoHost) = ExitCode 1"
  using exit_status [OF demo_read demo_load] demo_read demo_load
  by (simp add: demo_parse demo_groups)

subsection \<open>C8: the catalog parser\<close>

text \<open>
  Claim C8. For every catalog text the parser returns the identifiers captured from the
  lines of the text that match the pattern at their first unit, in the order of the lines
  and with duplicates kept; that sequence is the only one the lines determine; a line that
  does not match adds nothing, and reading a readable catalog never fails.
\<close>

theorem parser_captures:
  "capturedFrom (jsSplit NEWLINE catalog) (parseFtlIds catalog) \<and>
   (\<forall>ids. capturedFrom (jsSplit NEWLINE catalog) ids \<longrightarrow> ids = parseFtlIds catalog) \<and>
   (\<forall>h p. readFileSync h p = Inr catalog \<longrightarrow> extractFtlIds h p = Inr (parseFtlIds catalog))"
  by (simp add: capturedFrom_iff parseFtlIds_eq extractFtlIds_def)

theorem parser_captures_witness:
  "readFileSync demoHost (FTL_PATH demoHost) = Inr demoCatalog \<and>
   extractFtlIds demoHost (FTL_PATH demoHost) =
     Inr [js ''foo-bar'', js ''pdfjs-x-alert'', js ''ab'', js ''foo-bar''] \<and>
   capturedFrom (jsSplit NEWLINE demoCatalog)
     [js ''foo-bar'', js ''pdfjs-x-alert'', js ''ab'', js ''foo-bar'']"
  using parser_captures [of demoCatalog] demo_read
  by (simp add: demo_parse demoIds_def)

subsection \<open>C9: unreadable inputs\<close>

text \<open>
  Claim C9, as stated, says that nothing of the report is printed before the run aborts on
  an unreadable catalog or source directory. The run below has a readable catalog and no
  listable directory: it aborts with the read failure, after it has printed the count of
  declared identifiers.
\<close>

theorem abort_after_count_counterexample:
  "nodeAt brokenHost (pathJoin brokenHost [ROOT brokenHost, js ''web'']) = NoDir ENOENT \<and>
   loadSources brokenHost SEARCH_DIRS SEARCH_EXTENSIONS = Inl ENOENT \<and>
   main brokenHost = \<lparr>printed = [LogFound 4], outcome = Threw ENOENT\<rparr> \<and>
   printed (main brokenHost) \<noteq> []"
  by (simp add: broken_node broken_load main_def extractFtlIds_def broken_read demo_parse
      demoIds_def)

text \<open>
  Claim C9, amended. If the catalog cannot be read, the run aborts with that failure and
  has printed nothing. If the catalog is read and loading the sources fails, the run
  aborts with that failure before any classification, and has printed the count of
  declared identifiers and nothing else. Loading fails whenever one of the search
  directories cannot be listed.
\<close>

theorem abort_on_unreadable_input:
  "(\<forall>e. readFileSync h (FTL_PATH h) = Inl e \<longrightarrow>
       main h = \<lparr>printed = [], outcome = Threw e\<rparr>) \<and>
   (\<forall>catalog e. readFileSync h (FTL_PATH h) = Inr catalog \<and>
       loadSources h SEARCH_DIRS SEARCH_EXTENSIONS = Inl e \<longrightarrow>
       main h = \<lparr>printed = [LogFound (length (parseFtlIds catalog))], outcome = Threw e\<rparr>) \<and>
   (\<forall>d e. d \<in> set SEARCH_DIRS \<and> nodeAt h (pathJoin h [ROOT h, d]) = NoDir e \<longrightarrow>
       (\<exists>e'. loadSources h SEARCH_DIRS SEARCH_EXTENSIONS = Inl e'))"
proof (intro conjI allI impI)
  fix e assume "readFileSync h (FTL_PATH h) = Inl e"
  then show "main h = \<lparr>printed = [], outcome = Threw e\<rparr>"
    by (simp add: main_def extractFtlIds_def)
next
  fix catalog e
  assume "readFileSync h (FTL_PATH h) = Inr catalog \<and>
       loadSources h SEARCH_DIRS SEARCH_EXTENSIONS = Inl e"
  then show "main h = \<lparr>printed = [LogFound (length (parseFtlIds catalog))], outcome = Threw e\<rparr>"
    by (simp add: main_def extractFtlIds_def Let_def)
next
  fix d e
  assume a: "d \<in> set SEARCH_DIRS \<and> nodeAt h (pathJoin h [ROOT h, d]) = NoDir e"
  then have "collectFiles h (pathJoin h [ROOT h, d]) (nodeAt h (pathJoin h [ROOT h, d]))
      SEARCH_EXTENSIONS = Inl e" by simp
  with a collectDirs_fails obtain e' where "collectDirs h SEARCH_DIRS SEARCH_EXTENSIONS = Inl e'"
    by blast
  then show "\<exists>e'. loadSources h SEARCH_DIRS SEARCH_EXTENSIONS = Inl e'"
    by (simp add: loadSources_def)
qed

theorem abort_on_unreadable_input_witness:
  "readFileSync brokenHost (FTL_PATH brokenHost) = Inr demoCatalog \<and>
   js ''web'' \<in> set SEARCH_DIRS \<and>
   nodeAt brokenHost (pathJoin brokenHost [ROOT brokenHost, js ''web'']) = NoDir ENOENT \<and>
   loadSources brokenHost SEARCH_DIRS SEARCH_EXTENSIONS = Inl ENOENT \<and>
   main brokenHost =
     \<lparr>printed = [LogFound (length (parseFtlIds demoCatalog))], outcome = Threw ENOENT\<rparr>"
proof -
  have w: "js ''web'' \<in> set SEARCH_DIRS" by (simp add: SEARCH_DIRS_def)
  show ?thesis
    using abort_on_unreadable_input [of brokenHost] broken_read broken_load broken_node w
    by simp
qed

subsection \<open>C10: duplicate declarations\<close>

text \<open>
  Claim C10. All declarations of one identifier string land in the same group: they are
  all in Used, or all in LikelyDynamic, each with the location \<open>findDynamicLocation\<close>
  gives for that string, or all in Unused; and the string is in neither of the other two
  groups.
\<close>

theorem duplicates_same_class:
  "(count_list (usedGroup ids sources) ident = count_list ids ident
      \<and> ident \<notin> dynamicIds ids sources \<and> ident \<notin> set (unused ids sources))
   \<or> (count_list (map fst (dynamicEntries ids sources)) ident = count_list ids ident
      \<and> ident \<notin> set (usedGroup ids sources) \<and> ident \<notin> set (unused ids sources)
      \<and> (\<forall>e \<in> set (dynamicEntries ids sources).
            fst e = ident \<longrightarrow> snd e = findDynamicLocation ident sources))
   \<or> (count_list (unused ids sources) ident = count_list ids ident
      \<and> ident \<notin> set (usedGroup ids sources) \<and> ident \<notin> dynamicIds ids sources)"
  unfolding dynamic_names_eq unused_eq usedGroup_def dynamicIds_eq
  by (auto simp: count_list_filter dynamicEntries_eq)

theorem duplicates_same_class_witness:
  "count_list demoIds (js ''foo-bar'') = 2 \<and>
   count_list (usedGroup demoIds [demoFile]) (js ''foo-bar'') = 2 \<and>
   js ''foo-bar'' \<notin> dynamicIds demoIds [demoFile] \<and>
   js ''foo-bar'' \<notin> set (unused demoIds [demoFile])"
proof -
  have n: "count_list demoIds (js ''foo-bar'') = 2"
    by (simp add: demoIds_def chars)
  have u: "js ''foo-bar'' \<in> set (usedGroup demoIds [demoFile])"
    by (simp add: demo_groups)
  show ?thesis
    using duplicates_same_class [of demoIds "[demoFile]" "js ''foo-bar''"] n u by auto
qed

end
